theory Spec2Isabelle
  imports Main "HOL-Library.Multiset"
begin

section \<open>Semantic tokens (src/server/src/common/semanticTokens.ts)\<close>

text \<open>
  Token data are JavaScript numbers holding integers (line, character, length, token type and
  modifier bit set), so they are modelled as \<open>int\<close>; \<open>===\<close> on them is equality.
\<close>

subsection \<open>SemanticTokensDiff\<close>

text \<open>
  \<open>SemanticTokensEdit\<close> of the protocol: \<open>start\<close>, \<open>deleteCount\<close> and the optional
  \<open>data\<close> (\<open>None\<close> when the property is absent).
\<close>

record SemanticTokensEdit =
  start :: int
  deleteCount :: int
  edit_data :: "int list option"

text \<open>
  \<open>Array.prototype.slice(start, end)\<close>: a negative index counts from the end, both indices
  are clamped to the array, and the result is empty when \<open>end\<close> does not exceed \<open>start\<close>.
\<close>

definition slice_index :: "nat \<Rightarrow> int \<Rightarrow> nat" where
  "slice_index len k = (if k < 0 then nat (max (int len + k) 0) else min (nat k) len)"

definition slice :: "'a list \<Rightarrow> int \<Rightarrow> int \<Rightarrow> 'a list" where
  "slice xs from to =
     (let k = slice_index (length xs) from; final = slice_index (length xs) to
      in take (final - k) (drop k xs))"

text \<open>The first loop of \<open>computeDiff\<close>: the length of the common prefix.\<close>

function startLoop :: "int list \<Rightarrow> int list \<Rightarrow> nat \<Rightarrow> nat" where
  "startLoop originalSequence modifiedSequence startIndex =
     (if startIndex < length modifiedSequence \<and> startIndex < length originalSequence
         \<and> originalSequence ! startIndex = modifiedSequence ! startIndex
      then startLoop originalSequence modifiedSequence (startIndex + 1)
      else startIndex)"
  by pat_completeness auto
termination
  by (relation "measure (\<lambda>(originalSequence, modifiedSequence, startIndex).
        length modifiedSequence - startIndex)") auto

text \<open>
  The second loop: \<open>endIndex\<close> counts equal elements from the back. Its guard bounds
  \<open>endIndex\<close> by the two lengths only, not by \<open>startIndex\<close>.
\<close>

function endLoop :: "int list \<Rightarrow> int list \<Rightarrow> nat \<Rightarrow> nat" where
  "endLoop originalSequence modifiedSequence endIndex =
     (if endIndex < length modifiedSequence \<and> endIndex < length originalSequence
         \<and> originalSequence ! (length originalSequence - 1 - endIndex)
             = modifiedSequence ! (length modifiedSequence - 1 - endIndex)
      then endLoop originalSequence modifiedSequence (endIndex + 1)
      else endIndex)"
  by pat_completeness auto
termination
  by (relation "measure (\<lambda>(originalSequence, modifiedSequence, endIndex).
        length modifiedSequence - endIndex)") auto

definition computeDiff :: "int list \<Rightarrow> int list \<Rightarrow> SemanticTokensEdit list" where
  "computeDiff originalSequence modifiedSequence =
     (let originalLength = int (length originalSequence);
          modifiedLength = int (length modifiedSequence);
          startIndex = int (startLoop originalSequence modifiedSequence 0)
      in if startIndex < modifiedLength \<and> startIndex < originalLength then
           (let endIndex = int (endLoop originalSequence modifiedSequence 0) - 1;
                newData = slice modifiedSequence startIndex (modifiedLength - endIndex)
            in [\<lparr>start = startIndex,
                 deleteCount = originalLength - endIndex - startIndex,
                 edit_data = Some newData\<rparr>])
         else if startIndex < modifiedLength then
           [\<lparr>start = startIndex, deleteCount = 0,
             edit_data = Some (slice modifiedSequence startIndex modifiedLength)\<rparr>]
         else if startIndex < originalLength then
           [\<lparr>start = startIndex, deleteCount = originalLength - startIndex,
             edit_data = None\<rparr>]
         else [])"

text \<open>
  Applying an edit, in the words of the claim: the \<open>deleteCount\<close> elements starting at
  \<open>start\<close> are replaced by the edit's data, or deleted when the data is absent.
\<close>

definition applyEdit :: "int list \<Rightarrow> SemanticTokensEdit \<Rightarrow> int list" where
  "applyEdit xs e =
     take (nat (start e)) xs
       @ (case edit_data e of None \<Rightarrow> [] | Some d \<Rightarrow> d)
       @ drop (nat (start e) + nat (deleteCount e)) xs"

definition applyEdits :: "int list \<Rightarrow> SemanticTokensEdit list \<Rightarrow> int list" where
  "applyEdits xs es = foldl applyEdit xs es"

subsection \<open>SemanticTokensBuilder\<close>

text \<open>
  A JavaScript array of numbers: an assignment at an index inside the array overwrites, one
  at or past the end extends the array, leaving holes (\<open>None\<close>) in between.
\<close>

definition array_set :: "int option list \<Rightarrow> nat \<Rightarrow> int \<Rightarrow> int option list" where
  "array_set xs i v =
     (if i < length xs then xs[i := Some v]
      else xs @ replicate (i - length xs) None @ [Some v])"

text \<open>
  The private fields \<open>_id\<close>, \<open>_prevLine\<close>, \<open>_prevChar\<close>, \<open>_data\<close>, \<open>_dataLen\<close> and
  \<open>_prevData\<close> of the class.
\<close>

record SemanticTokensBuilder =
  builderId :: int
  prevLine :: int
  prevChar :: int
  tokData :: "int option list"
  dataLen :: nat
  prevData :: "int option list option"

text \<open>\<open>initialize\<close> reads the clock (\<open>Date.now()\<close>), which is a parameter here.\<close>

definition initialize :: "int \<Rightarrow> SemanticTokensBuilder \<Rightarrow> SemanticTokensBuilder" where
  "initialize dateNow b =
     b\<lparr>builderId := dateNow, prevLine := 0, prevChar := 0, tokData := [], dataLen := 0\<rparr>"

definition newBuilder :: "int \<Rightarrow> SemanticTokensBuilder" where
  "newBuilder dateNow =
     initialize dateNow
       \<lparr>builderId = 0, prevLine = 0, prevChar = 0, tokData = [], dataLen = 0, prevData = None\<rparr>"

definition push ::
  "int \<Rightarrow> int \<Rightarrow> int \<Rightarrow> int \<Rightarrow> int \<Rightarrow> SemanticTokensBuilder \<Rightarrow> SemanticTokensBuilder" where
  "push line char len tokenType tokenModifiers b =
     (let pushLine = (if dataLen b > 0 then line - prevLine b else line);
          pushChar = (if dataLen b > 0 \<and> pushLine = 0 then char - prevChar b else char);
          d1 = array_set (tokData b) (dataLen b) pushLine;
          d2 = array_set d1 (dataLen b + 1) pushChar;
          d3 = array_set d2 (dataLen b + 2) len;
          d4 = array_set d3 (dataLen b + 3) tokenType;
          d5 = array_set d4 (dataLen b + 4) tokenModifiers
      in b\<lparr>tokData := d5, dataLen := dataLen b + 5, prevLine := line, prevChar := char\<rparr>)"

text \<open>\<open>build\<close> returns the \<open>SemanticTokens\<close> result and forgets the previous data.\<close>

record SemanticTokens =
  resultId :: int
  data :: "int option list"

definition build :: "SemanticTokensBuilder \<Rightarrow> SemanticTokens \<times> SemanticTokensBuilder" where
  "build b = (\<lparr>resultId = builderId b, data = tokData b\<rparr>, b\<lparr>prevData := None\<rparr>)"

text \<open>A pushed token: line, character, length, token type, token modifiers.\<close>

type_synonym token = "int \<times> int \<times> int \<times> int \<times> int"

fun pushToken :: "token \<Rightarrow> SemanticTokensBuilder \<Rightarrow> SemanticTokensBuilder" where
  "pushToken (line, char, len, tokenType, tokenModifiers) b =
     push line char len tokenType tokenModifiers b"

definition pushAll :: "token list \<Rightarrow> SemanticTokensBuilder \<Rightarrow> SemanticTokensBuilder" where
  "pushAll ts b = fold pushToken ts b"

text \<open>
  Reading the absolute positions back from a data array: the inverse of the delta
  encoding, with the previous absolute line and character as running state.
\<close>

fun decodeFrom :: "int \<Rightarrow> int \<Rightarrow> int list \<Rightarrow> token list" where
  "decodeFrom pl pc (dl # dc # len # ty # md # rest) =
     (let line = pl + dl; char = (if dl = 0 then pc + dc else dc)
      in (line, char, len, ty, md) # decodeFrom line char rest)"
| "decodeFrom pl pc rest = []"

definition decodeTokens :: "int option list \<Rightarrow> token list" where
  "decodeTokens d = decodeFrom 0 0 (map the d)"

text \<open>
  The encoding the builder is meant to produce, stated on the list of pushed tokens:
  \<open>first\<close> says that no token precedes, \<open>pl\<close> and \<open>pc\<close> are the previous
  token's absolute line and character.
\<close>

fun deltaEncode :: "bool \<Rightarrow> int \<Rightarrow> int \<Rightarrow> token list \<Rightarrow> int list" where
  "deltaEncode first pl pc [] = []"
| "deltaEncode first pl pc ((line, char, len, ty, md) # ts) =
     [if first then line else line - pl,
      if \<not> first \<and> line = pl then char - pc else char,
      len, ty, md] @ deltaEncode False line char ts"

definition tokLine :: "token \<Rightarrow> int" where "tokLine t = fst t"
definition tokChar :: "token \<Rightarrow> int" where "tokChar t = fst (snd t)"
definition tokLength :: "token \<Rightarrow> int" where "tokLength t = fst (snd (snd t))"
definition tokType :: "token \<Rightarrow> int" where "tokType t = fst (snd (snd (snd t)))"
definition tokModifiers :: "token \<Rightarrow> int" where "tokModifiers t = snd (snd (snd (snd t)))"

text \<open>The data array of \<open>build()\<close> after a fresh builder received the pushes \<open>ts\<close>.\<close>

definition builtData :: "int \<Rightarrow> token list \<Rightarrow> int option list" where
  "builtData dateNow ts = data (fst (build (pushAll ts (newBuilder dateNow))))"


section \<open>The message reader (messageReader.ts, in src/jsonrpc/src/common/common.ts)\<close>

subsection \<open>Bytes, errors, events\<close>

text \<open>A \<open>Uint8Array\<close> is a list of bytes; a byte is a \<open>char\<close>, so headers read as text.\<close>

type_synonym bytes = string

definition CR :: char where "CR = CHR 0x0D"
definition LF :: char where "LF = CHR 0x0A"
definition CRLF :: string where "CRLF = [CR, LF]"

text \<open>
  A value that is thrown, or that a promise is rejected with: a JavaScript \<open>Error\<close> with its
  message; the \<open>TypeError\<close> raised by reading a property of \<open>null\<close> or \<open>undefined\<close> (an
  \<open>Error\<close> as well); any other value but \<open>null\<close> and \<open>undefined\<close>, with its \<open>message\<close>
  property when that is a string; and \<open>null\<close> or \<open>undefined\<close>.
\<close>

datatype error = Error string | TypeError | Rejection "string option" | Nullish

text \<open>
  \<open>asError\<close>: \<open>Inr\<close> is the \<open>Error\<close> returned, \<open>Inl\<close> the error thrown. An instance of \<open>Error\<close>
  is returned as it is; of \<open>null\<close> and \<open>undefined\<close> the property \<open>error.message\<close> cannot be
  read.
\<close>

fun asError :: "error \<Rightarrow> error + error" where
  "asError (Error m) = Inr (Error m)"
| "asError TypeError = Inr TypeError"
| "asError (Rejection m) =
     Inr (Error (''Reader received error. Reason: '' @ (case m of Some t \<Rightarrow> t | None \<Rightarrow> ''unknown'')))"
| "asError Nullish = Inl TypeError"

datatype PartialMessageInfo = PartialMessageInfo (infoMessageToken: int) (waitingTime: int)

text \<open>
  What the reader's clients observe: the \<open>listen\<close> callback called with a message, and the
  events delivered to the listeners of \<open>onError\<close>, \<open>onClose\<close> and \<open>onPartialMessage\<close>.
\<close>

datatype 'm event =
    Callback 'm
  | OnError error
  | OnClose
  | OnPartialMessage PartialMessageInfo

text \<open>
  Modelled from the spec: the \<open>Emitter\<close> class (events.ts) is not among the sources. The spec
  describes the events as publish-subscribe channels that are torn down on disposal so that
  nothing fires into destroyed state: an emitter is live or disposed, and firing a disposed
  emitter delivers nothing.
\<close>

record Emitter =
  isDisposed :: bool

definition newEmitter :: Emitter where
  "newEmitter = \<lparr>isDisposed = False\<rparr>"

definition disposeEmitter :: "Emitter \<Rightarrow> Emitter" where
  "disposeEmitter e = e\<lparr>isDisposed := True\<rparr>"

subsection \<open>Decoders and options\<close>

text \<open>
  What a call of a decoder's \<open>decode\<close> does: it throws, or it returns a promise, which is
  rejected with a value or resolves to one.
\<close>

datatype 'a outcome = Throws error | Rejects error | Resolves 'a

text \<open>
  The decoder interfaces of encoding.ts: a name and a \<open>decode\<close> function.
  The content-type decoder also receives the options, of which it reads the charset.
\<close>

record ContentDecoder =
  cd_name :: string
  cd_decode :: "bytes \<Rightarrow> bytes outcome"

record 'm ContentTypeDecoder =
  ctd_name :: string
  ctd_decode :: "bytes \<Rightarrow> string \<Rightarrow> 'm outcome"

record 'm MessageReaderOptions =
  opt_charset :: "string option"
  opt_contentDecoder :: "ContentDecoder option"
  opt_contentDecoders :: "ContentDecoder list option"
  opt_contentTypeDecoder :: "'m ContentTypeDecoder option"
  opt_contentTypeDecoders :: "'m ContentTypeDecoder list option"

record 'm ResolvedMessageReaderOptions =
  charset :: string
  contentDecoder :: "ContentDecoder option"
  contentDecoders :: "string \<rightharpoonup> ContentDecoder"
  contentTypeDecoder :: "'m ContentTypeDecoder"
  contentTypeDecoders :: "string \<rightharpoonup> 'm ContentTypeDecoder"

text \<open>The argument \<open>options?: RAL.MessageBufferEncoding | MessageReaderOptions\<close>.\<close>

datatype 'm options_arg =
    Undefined
  | Encoding string
  | Options "'m MessageReaderOptions"

definition setContentDecoders ::
  "ContentDecoder list \<Rightarrow> (string \<rightharpoonup> ContentDecoder) \<Rightarrow> (string \<rightharpoonup> ContentDecoder)" where
  "setContentDecoders ds m = fold (\<lambda>decoder acc. acc(cd_name decoder \<mapsto> decoder)) ds m"

definition setContentTypeDecoders ::
  "'m ContentTypeDecoder list \<Rightarrow> (string \<rightharpoonup> 'm ContentTypeDecoder)
     \<Rightarrow> (string \<rightharpoonup> 'm ContentTypeDecoder)" where
  "setContentTypeDecoders ds m = fold (\<lambda>decoder acc. acc(ctd_name decoder \<mapsto> decoder)) ds m"

text \<open>
  \<open>ResolvedMessageReaderOptions.fromOptions\<close>. The decoder \<open>RAL().applicationJson.decoder\<close>
  of the runtime layer is the parameter \<open>applicationJson\<close>.
\<close>

definition fromOptions ::
  "'m ContentTypeDecoder \<Rightarrow> 'm options_arg \<Rightarrow> 'm ResolvedMessageReaderOptions" where
  "fromOptions applicationJson arg =
     (let (cs, contentDecoder0, contentDecoders0, contentTypeDecoder0, contentTypeDecoders0) =
        (case arg of
           Undefined \<Rightarrow> (''utf-8'', None, Map.empty, None, Map.empty)
         | Encoding enc \<Rightarrow> (enc, None, Map.empty, None, Map.empty)
         | Options opts \<Rightarrow>
             (let cds1 = (case opt_contentDecoder opts of
                            None \<Rightarrow> Map.empty
                          | Some d \<Rightarrow> Map.empty(cd_name d \<mapsto> d));
                  cds2 = (case opt_contentDecoders opts of
                            None \<Rightarrow> cds1
                          | Some ds \<Rightarrow> setContentDecoders ds cds1);
                  ctds1 = (case opt_contentTypeDecoder opts of
                             None \<Rightarrow> Map.empty
                           | Some d \<Rightarrow> Map.empty(ctd_name d \<mapsto> d));
                  ctds2 = (case opt_contentTypeDecoders opts of
                             None \<Rightarrow> ctds1
                           | Some ds \<Rightarrow> setContentTypeDecoders ds ctds1)
              in (case opt_charset opts of None \<Rightarrow> ''utf-8'' | Some c \<Rightarrow> c,
                  opt_contentDecoder opts, cds2, opt_contentTypeDecoder opts, ctds2)))
      in (case contentTypeDecoder0 of
            None \<Rightarrow>
              \<lparr>charset = cs, contentDecoder = contentDecoder0, contentDecoders = contentDecoders0,
               contentTypeDecoder = applicationJson,
               contentTypeDecoders = contentTypeDecoders0(ctd_name applicationJson \<mapsto> applicationJson)\<rparr>
          | Some d \<Rightarrow>
              \<lparr>charset = cs, contentDecoder = contentDecoder0, contentDecoders = contentDecoders0,
               contentTypeDecoder = d, contentTypeDecoders = contentTypeDecoders0\<rparr>))"


subsection \<open>The message buffer\<close>

text \<open>
  Modelled from the spec: the message buffer (\<open>RAL.MessageBuffer\<close>, with \<open>append\<close>,
  \<open>tryReadHeaders\<close> and \<open>tryReadBody\<close>) is not among the sources. The spec gives the
  framing: a header block of lines \<open>Name: Value\<close>, each ended by CR LF, terminated by an
  empty line, followed by the body; reading the headers fails silently while the header
  block is incomplete, and reading the body fails silently while fewer bytes than asked for
  are buffered. The buffer is the list of the bytes received and not yet consumed.
\<close>

text \<open>
  \<open>splitHeaderBlock\<close> cuts the buffer at the first empty line (CR LF CR LF): the text of the
  header block before it, and the bytes after it.
\<close>

fun splitHeaderBlock :: "bytes \<Rightarrow> (string \<times> bytes) option" where
  "splitHeaderBlock [] = None"
| "splitHeaderBlock (c # cs) =
     (if take 4 (c # cs) = CRLF @ CRLF then Some ([], drop 3 cs)
      else (case splitHeaderBlock cs of
              None \<Rightarrow> None
            | Some (h, rest) \<Rightarrow> Some (c # h, rest)))"

fun consHead :: "char \<Rightarrow> string list \<Rightarrow> string list" where
  "consHead c [] = [[c]]"
| "consHead c (l # ls) = (c # l) # ls"

text \<open>The lines of a text, separated by CR LF.\<close>

fun splitCRLF :: "string \<Rightarrow> string list" where
  "splitCRLF [] = [[]]"
| "splitCRLF [c] = [[c]]"
| "splitCRLF (c # d # cs) =
     (if c = CR \<and> d = LF then [] # splitCRLF cs else consHead c (splitCRLF (d # cs)))"

text \<open>White space as \<open>String.prototype.trim\<close> and \<open>parseInt\<close> skip it, within ASCII.\<close>

definition isWhiteSpace :: "char \<Rightarrow> bool" where
  "isWhiteSpace c =
     (c = CHR 0x09 \<or> c = CHR 0x0A \<or> c = CHR 0x0B \<or> c = CHR 0x0C \<or> c = CHR 0x0D \<or> c = CHR '' '')"

definition trim :: "string \<Rightarrow> string" where
  "trim t = rev (dropWhile isWhiteSpace (rev (dropWhile isWhiteSpace t)))"

text \<open>
  A header line \<open>Name: Value\<close>: the name is the text before the first colon, the value the
  text after it without the surrounding white space. A line without a colon gives no entry.
\<close>

definition parseHeaderLine :: "string \<Rightarrow> (string \<times> string) option" where
  "parseHeaderLine l =
     (if CHR '':'' \<in> set l
      then Some (takeWhile (\<lambda>c. c \<noteq> CHR '':'') l, trim (drop 1 (dropWhile (\<lambda>c. c \<noteq> CHR '':'') l)))
      else None)"

definition headersOf :: "string list \<Rightarrow> (string \<rightharpoonup> string)" where
  "headersOf ls =
     fold (\<lambda>l m. case parseHeaderLine l of None \<Rightarrow> m | Some (k, v) \<Rightarrow> m(k \<mapsto> v)) ls Map.empty"

definition tryReadHeaders :: "bytes \<Rightarrow> ((string \<rightharpoonup> string) \<times> bytes) option" where
  "tryReadHeaders buf =
     (case splitHeaderBlock buf of
        None \<Rightarrow> None
      | Some (h, rest) \<Rightarrow> Some (headersOf (splitCRLF h), rest))"

definition tryReadBody :: "bytes \<Rightarrow> int \<Rightarrow> (bytes \<times> bytes) option" where
  "tryReadBody buf len =
     (if int (length buf) < len then None
      else Some (take (nat len) buf, drop (nat len) buf))"

subsection \<open>parseInt\<close>

text \<open>
  The global \<open>parseInt\<close> with no radix argument: leading white space is skipped, a sign is
  read, a prefix \<open>0x\<close> or \<open>0X\<close> selects radix 16, and the longest prefix of digits of the
  radix is the value; \<open>NaN\<close> (\<open>None\<close>) when there is no digit. The value is an unbounded
  integer here (a double in JavaScript, exact up to \<open>2^53\<close>).
\<close>

definition digitValue :: "char \<Rightarrow> nat option" where
  "digitValue c =
     (let n = (of_char c :: nat)
      in if 48 \<le> n \<and> n \<le> 57 then Some (n - 48)
         else if 97 \<le> n \<and> n \<le> 122 then Some (n - 87)
         else if 65 \<le> n \<and> n \<le> 90 then Some (n - 55)
         else None)"

definition isRadixDigit :: "nat \<Rightarrow> char \<Rightarrow> bool" where
  "isRadixDigit radix c = (case digitValue c of None \<Rightarrow> False | Some v \<Rightarrow> v < radix)"

definition digitsValue :: "nat \<Rightarrow> string \<Rightarrow> nat" where
  "digitsValue radix ds =
     foldl (\<lambda>acc c. acc * radix + (case digitValue c of None \<Rightarrow> 0 | Some v \<Rightarrow> v)) 0 ds"

definition parseInt :: "string \<Rightarrow> int option" where
  "parseInt str =
     (let s1 = dropWhile isWhiteSpace str;
          sign = (if take 1 s1 = ''-'' then - 1 else 1 :: int);
          s2 = (if take 1 s1 = ''-'' \<or> take 1 s1 = ''+'' then drop 1 s1 else s1);
          hex = (take 2 s2 = ''0x'' \<or> take 2 s2 = ''0X'');
          radix = (if hex then 16 else 10 :: nat);
          s3 = (if hex then drop 2 s2 else s2);
          ds = takeWhile (isRadixDigit radix) s3
      in if ds = [] then None else Some (sign * int (digitsValue radix ds)))"


subsection \<open>The reader and its environment\<close>

text \<open>
  A timer of the runtime, created by \<open>setTimeout(callback, delay, token, timeout)\<close>: its
  handle, the time at which it is due, and the two arguments kept for the callback.
\<close>

record timer =
  tid :: nat
  due :: int
  tok :: int
  tmo :: int

text \<open>
  The fields of \<open>AbstractMessageReader\<close> and \<open>ReadableStreamMessageReader\<close>, followed by the
  part of the environment the reader acts on: the number of handler sets that \<open>listen\<close> has
  registered on the stream (\<open>readable.onData\<close>, \<open>onError\<close>, \<open>onClose\<close>), the pending timers
  of the runtime, its clock (in milliseconds), the promises \<open>p\<close> of the decodings started and
  not settled yet, in the order in which they were started (\<open>Inl\<close> the value the promise is
  rejected with, \<open>Inr\<close> the value it resolves to), what has been delivered to the callback and
  to the event listeners, the errors thrown out of the handlers registered on the stream,
  and the rejections that no handler of a promise chain receives.
  The callback registered by \<open>listen\<close> is not a field: its calls are the \<open>Callback\<close> entries
  of \<open>delivered\<close>.
\<close>

record 'm reader =
  errorEmitter :: Emitter
  closeEmitter :: Emitter
  partialMessageEmitter :: Emitter
  options :: "'m ResolvedMessageReaderOptions"
  nextMessageLength :: int
  messageToken :: int
  buffer :: bytes
  partialMessageTimer :: "nat option"
  partialMessageTimeout :: int
  listeners :: nat
  timers :: "timer list"
  nextTimerId :: nat
  clock :: int
  decoding :: "(error + bytes) list"
  delivered :: "'m event list"
  uncaught :: "error list"
  unhandled :: "error list"

text \<open>
  The constructor, on a runtime with no timer pending and the clock at \<open>now\<close>. It registers
  nothing on the stream.
\<close>

definition newReader :: "'m ContentTypeDecoder \<Rightarrow> 'm options_arg \<Rightarrow> int \<Rightarrow> 'm reader" where
  "newReader applicationJson arg now =
     \<lparr>errorEmitter = newEmitter, closeEmitter = newEmitter, partialMessageEmitter = newEmitter,
      options = fromOptions applicationJson arg,
      nextMessageLength = - 1, messageToken = 0, buffer = [],
      partialMessageTimer = None, partialMessageTimeout = 10000,
      listeners = 0,
      timers = [], nextTimerId = 0, clock = now,
      decoding = [], delivered = [], uncaught = [], unhandled = []\<rparr>"

definition dispose :: "'m reader \<Rightarrow> 'm reader" where
  "dispose s =
     s\<lparr>errorEmitter := disposeEmitter (errorEmitter s),
       closeEmitter := disposeEmitter (closeEmitter s)\<rparr>"

text \<open>
  \<open>fireError\<close>, \<open>this.errorEmitter.fire(this.asError(error))\<close>: the argument is evaluated first,
  so what \<open>asError\<close> throws leaves \<open>fireError\<close> (\<open>Inl\<close>, with the state unchanged) before
  anything is fired.
\<close>

definition fireError :: "error \<Rightarrow> 'm reader \<Rightarrow> (error \<times> 'm reader) + 'm reader" where
  "fireError e s =
     (case asError e of
        Inl thrown \<Rightarrow> Inl (thrown, s)
      | Inr err \<Rightarrow>
          Inr (if isDisposed (errorEmitter s) then s
               else s\<lparr>delivered := delivered s @ [OnError err]\<rparr>))"

definition fireClose :: "'m reader \<Rightarrow> 'm reader" where
  "fireClose s =
     (if isDisposed (closeEmitter s) then s else s\<lparr>delivered := delivered s @ [OnClose]\<rparr>)"

definition firePartialMessage :: "PartialMessageInfo \<Rightarrow> 'm reader \<Rightarrow> 'm reader" where
  "firePartialMessage info s =
     (if isDisposed (partialMessageEmitter s) then s
      else s\<lparr>delivered := delivered s @ [OnPartialMessage info]\<rparr>)"

text \<open>The setter of \<open>partialMessageTimeout\<close>.\<close>

definition setPartialMessageTimeout :: "int \<Rightarrow> 'm reader \<Rightarrow> 'm reader" where
  "setPartialMessageTimeout timeout s = s\<lparr>partialMessageTimeout := timeout\<rparr>"

text \<open>
  \<open>listen\<close> resets the sequencing state, forgets the timer handle without clearing the
  timer, and registers one more set of handlers on the stream: a data handler that calls
  \<open>onData\<close>, an error handler that calls \<open>fireError\<close> and a close handler that calls
  \<open>fireClose\<close>. The handlers registered by earlier calls stay registered.
\<close>

definition listen :: "'m reader \<Rightarrow> 'm reader" where
  "listen s =
     s\<lparr>nextMessageLength := - 1, messageToken := 0, partialMessageTimer := None,
       listeners := listeners s + 1\<rparr>"

text \<open>\<open>setTimeout\<close> and \<open>clearTimeout\<close> of the runtime.\<close>

definition setTimeout :: "int \<Rightarrow> int \<Rightarrow> int \<Rightarrow> 'm reader \<Rightarrow> nat \<times> 'm reader" where
  "setTimeout delay token timeout s =
     (nextTimerId s,
      s\<lparr>timers := timers s @ [\<lparr>tid = nextTimerId s, due = clock s + delay, tok = token, tmo = timeout\<rparr>],
        nextTimerId := nextTimerId s + 1\<rparr>)"

definition clearTimeout :: "nat \<Rightarrow> 'm reader \<Rightarrow> 'm reader" where
  "clearTimeout h s = s\<lparr>timers := filter (\<lambda>t. tid t \<noteq> h) (timers s)\<rparr>"

definition clearPartialMessageTimer :: "'m reader \<Rightarrow> 'm reader" where
  "clearPartialMessageTimer s =
     (case partialMessageTimer s of
        None \<Rightarrow> s
      | Some h \<Rightarrow> (clearTimeout h s)\<lparr>partialMessageTimer := None\<rparr>)"

definition setPartialMessageTimer :: "'m reader \<Rightarrow> 'm reader" where
  "setPartialMessageTimer s =
     (let s1 = clearPartialMessageTimer s
      in if partialMessageTimeout s1 \<le> 0 then s1
         else (let (h, s2) = setTimeout (partialMessageTimeout s1) (messageToken s1)
                               (partialMessageTimeout s1) s1
               in s2\<lparr>partialMessageTimer := Some h\<rparr>))"

text \<open>The callback given to \<open>setTimeout\<close>, run for the timer \<open>t\<close> when it fires.\<close>

definition timerCallback :: "timer \<Rightarrow> 'm reader \<Rightarrow> 'm reader" where
  "timerCallback t s =
     (let s1 = s\<lparr>partialMessageTimer := None\<rparr>
      in if tok t = messageToken s1
         then setPartialMessageTimer (firePartialMessage (PartialMessageInfo (tok t) (tmo t)) s1)
         else s1)"

text \<open>
  The runtime fires a pending timer once, when it is due: the one due first, and among
  those due together the one created first.
\<close>

fun earliest :: "timer list \<Rightarrow> timer option" where
  "earliest [] = None"
| "earliest (t # ts) =
     (case earliest ts of
        None \<Rightarrow> Some t
      | Some u \<Rightarrow> if due u < due t then Some u else Some t)"

definition nextDue :: "int \<Rightarrow> timer list \<Rightarrow> timer option" where
  "nextDue target ts = earliest (filter (\<lambda>t. due t \<le> target) ts)"

definition fireTimer :: "timer \<Rightarrow> 'm reader \<Rightarrow> 'm reader" where
  "fireTimer t s =
     timerCallback t (s\<lparr>timers := remove1 t (timers s), clock := max (clock s) (due t)\<rparr>)"

definition timersWeight :: "int \<Rightarrow> 'm reader \<Rightarrow> nat" where
  "timersWeight target s = sum_list (map (\<lambda>t. nat (target + 1 - due t)) (timers s))"

lemma earliest_in_set: "earliest ts = Some t \<Longrightarrow> t \<in> set ts"
  by (induction ts arbitrary: t) (auto split: option.splits if_splits)

lemma nextDue_Some: "nextDue target ts = Some t \<Longrightarrow> t \<in> set ts \<and> due t \<le> target"
  using earliest_in_set [of "filter (\<lambda>t. due t \<le> target) ts" t] by (simp add: nextDue_def)

lemma fireTimer_weight:
  assumes "nextDue target (timers s) = Some t"
  shows "timersWeight target (fireTimer t s) < timersWeight target s"
proof -
  let ?f = "\<lambda>t. nat (target + 1 - due t)"
  from nextDue_Some [OF assms] have mem: "t \<in> set (timers s)" and d: "due t \<le> target"
    by simp_all
  have split: "sum_list (map ?f (timers s)) = ?f t + sum_list (map ?f (remove1 t (timers s)))"
    using mem by (rule sum_list_map_remove1)
  have pos: "0 < ?f t" using d by simp
  have new: "0 < T \<Longrightarrow> nat (target + 1 - (max c (due t) + T)) < ?f t" for T c :: int
    using d by simp
  show ?thesis
    unfolding timersWeight_def fireTimer_def timerCallback_def setPartialMessageTimer_def
      clearPartialMessageTimer_def firePartialMessage_def setTimeout_def Let_def
    using split pos new [of "partialMessageTimeout s" "clock s"]
    by (simp add: not_le)
qed

text \<open>Time passes until \<open>target\<close>: the timers due by then fire in turn.\<close>

function runTimers :: "int \<Rightarrow> 'm reader \<Rightarrow> 'm reader" where
  "runTimers target s =
     (case nextDue target (timers s) of
        None \<Rightarrow> s\<lparr>clock := max (clock s) target\<rparr>
      | Some t \<Rightarrow> runTimers target (fireTimer t s))"
  by pat_completeness auto
termination
  by (relation "measure (\<lambda>(target, s). timersWeight target s)") (auto simp: fireTimer_weight)

definition elapse :: "int \<Rightarrow> 'm reader \<Rightarrow> 'm reader" where
  "elapse d s = runTimers (clock s + d) s"

subsection \<open>onData\<close>

text \<open>
  How a part of the loop body of \<open>onData\<close> ends: with \<open>return\<close>, by going on to what
  follows it, or with \<open>throw\<close>; each with the state the reader is left in.
\<close>

datatype 'm control =
    Return "'m reader"
  | Continue "'m reader"
  | Throw error "'m reader"

text \<open>
  The block under \<open>if (this.nextMessageLength === -1)\<close>: it returns on an incomplete header
  block, throws on a header block without a usable \<open>Content-Length\<close>, and goes on to the
  body otherwise.
\<close>

definition readHeaders :: "'m reader \<Rightarrow> 'm control" where
  "readHeaders s =
     (if nextMessageLength s = - 1 then
        (case tryReadHeaders (buffer s) of
           None \<Rightarrow> Return s
         | Some (headers, rest) \<Rightarrow>
             (let s1 = s\<lparr>buffer := rest\<rparr>
              in case headers ''Content-Length'' of
                   None \<Rightarrow> Throw (Error ''Header must provide a Content-Length property.'') s1
                 | Some contentLength \<Rightarrow>
                     if contentLength = []
                     then Throw (Error ''Header must provide a Content-Length property.'') s1
                     else (case parseInt contentLength of
                             None \<Rightarrow> Throw (Error ''Content-Length value must be a number.'') s1
                           | Some len \<Rightarrow> Continue (s1\<lparr>nextMessageLength := len\<rparr>))))
      else Continue s)"

text \<open>
  The promise \<open>p\<close> of lines 266 to 271: \<open>this.options.contentDecoder.decode(body)\<close> when the
  options have a content decoder, \<open>Promise.resolve(body)\<close> otherwise.
\<close>

definition contentDecoded :: "'m ResolvedMessageReaderOptions \<Rightarrow> bytes \<Rightarrow> bytes outcome" where
  "contentDecoded opts body =
     (case contentDecoder opts of
        None \<Rightarrow> Resolves body
      | Some decoder \<Rightarrow> cd_decode decoder body)"

text \<open>
  \<open>p.then(...)\<close> attaches the handlers to the promise \<open>p\<close>. They run when \<open>p\<close> settles, after
  \<open>onData\<close> has returned; until then the promise is pending.
\<close>

definition startDecoding :: "error + bytes \<Rightarrow> 'm reader \<Rightarrow> 'm reader" where
  "startDecoding p s = s\<lparr>decoding := decoding s @ [p]\<rparr>"

text \<open>
  The rest of the loop body. It returns on an incomplete body, after arming the timer.
  On a complete body the timer is cleared and \<open>nextMessageLength\<close> reset, and then the
  content decoder is called: what this call throws leaves \<open>onData\<close>; otherwise the decoding
  is started and the loop goes on.
\<close>

definition readBody :: "'m reader \<Rightarrow> 'm control" where
  "readBody s =
     (case tryReadBody (buffer s) (nextMessageLength s) of
        None \<Rightarrow> Return (setPartialMessageTimer s)
      | Some (body, rest) \<Rightarrow>
          (let s1 = (clearPartialMessageTimer (s\<lparr>buffer := rest\<rparr>))\<lparr>nextMessageLength := - 1\<rparr>
           in case contentDecoded (options s1) body of
                Throws e \<Rightarrow> Throw e s1
              | Rejects e \<Rightarrow> Continue (startDecoding (Inl e) s1)
              | Resolves v \<Rightarrow> Continue (startDecoding (Inr v) s1)))"

definition loopWeight :: "'m reader \<Rightarrow> nat" where
  "loopWeight s = 2 * length (buffer s) + (if nextMessageLength s = - 1 then 0 else 1)"

lemma splitHeaderBlock_length:
  "splitHeaderBlock buf = Some (h, rest) \<Longrightarrow> length h + length rest + 4 = length buf"
proof (induction buf arbitrary: h)
  case Nil
  then show ?case by simp
next
  case (Cons c cs)
  show ?case
  proof (cases "take 4 (c # cs) = CRLF @ CRLF")
    case True
    then have "3 \<le> length cs"
      by (cases cs; cases "tl cs"; cases "tl (tl cs)") (auto simp: CRLF_def)
    with True Cons.prems show ?thesis by auto
  next
    case False
    with Cons.prems obtain h' where "splitHeaderBlock cs = Some (h', rest)" "h = c # h'"
      by (auto split: option.splits)
    with Cons.IH [of h'] show ?thesis by simp
  qed
qed

lemma loop_weight:
  assumes "readHeaders s = Continue s1" and "readBody s1 = Continue s2"
  shows "loopWeight s2 < loopWeight s"
proof -
  have b: "length (buffer s2) \<le> length (buffer s1)" and n: "nextMessageLength s2 = - 1"
    using assms(2)
    by (auto simp: readBody_def tryReadBody_def startDecoding_def clearPartialMessageTimer_def
        clearTimeout_def Let_def split: if_splits option.splits outcome.splits)
  show ?thesis
  proof (cases "nextMessageLength s = - 1")
    case True
    then obtain hs rest where "tryReadHeaders (buffer s) = Some (hs, rest)" "buffer s1 = rest"
      using assms(1)
      by (auto simp: readHeaders_def Let_def split: option.splits if_splits)
    then have "length (buffer s1) + 4 \<le> length (buffer s)"
      using splitHeaderBlock_length [of "buffer s" _ rest]
      by (auto simp: tryReadHeaders_def split: option.splits)
    with b n True show ?thesis by (simp add: loopWeight_def)
  next
    case False
    then have "s1 = s" using assms(1) by (simp add: readHeaders_def)
    with b n False show ?thesis by (simp add: loopWeight_def)
  qed
qed

text \<open>
  The \<open>while (true)\<close> loop of \<open>onData\<close>: \<open>Inl\<close> is a thrown error with the state the reader is
  left in, \<open>Inr\<close> the state in which \<open>onData\<close> returns.
\<close>

function onDataLoop :: "'m reader \<Rightarrow> (error \<times> 'm reader) + 'm reader" where
  "onDataLoop s =
     (case readHeaders s of
        Return t \<Rightarrow> Inr t
      | Throw e t \<Rightarrow> Inl (e, t)
      | Continue s1 \<Rightarrow>
          (case readBody s1 of
             Return t \<Rightarrow> Inr t
           | Throw e t \<Rightarrow> Inl (e, t)
           | Continue s2 \<Rightarrow> onDataLoop s2))"
  by pat_completeness auto
termination
  by (relation "measure loopWeight") (auto simp: loop_weight)

definition onData :: "bytes \<Rightarrow> 'm reader \<Rightarrow> (error \<times> 'm reader) + 'm reader" where
  "onData chunk s = onDataLoop (s\<lparr>buffer := buffer s @ chunk\<rparr>)"

subsection \<open>Settling the decoding promises\<close>

text \<open>
  The rejection handlers \<open>(error) => { this.fireError(error); }\<close> of the promise chain: what
  \<open>fireError\<close> throws there rejects the promise returned by \<open>then\<close>, which has no handler.
\<close>

definition rejected :: "error \<Rightarrow> 'm reader \<Rightarrow> 'm reader" where
  "rejected e s =
     (case fireError e s of
        Inr s' \<Rightarrow> s'
      | Inl (thrown, s') \<Rightarrow> s'\<lparr>unhandled := unhandled s' @ [thrown]\<rparr>)"

text \<open>
  The handlers attached by \<open>then\<close> (lines 272 to 280) run for the settled promise \<open>p\<close>. When
  \<open>p\<close> is rejected, its rejection handler runs. When it resolves, the content-type decoder of
  the options is called on the value: what this call throws rejects the promise returned
  by \<open>then\<close>, which has no handler; otherwise the callback receives the message the decoder
  resolves to, or the inner rejection handler the value it rejects with.
\<close>

definition deliverOutcome :: "error + bytes \<Rightarrow> 'm reader \<Rightarrow> 'm reader" where
  "deliverOutcome p s =
     (case p of
        Inl e \<Rightarrow> rejected e s
      | Inr v \<Rightarrow>
          (case ctd_decode (contentTypeDecoder (options s)) v (charset (options s)) of
             Throws e \<Rightarrow> s\<lparr>unhandled := unhandled s @ [e]\<rparr>
           | Rejects e \<Rightarrow> rejected e s
           | Resolves msg \<Rightarrow> s\<lparr>delivered := delivered s @ [Callback msg]\<rparr>))"

text \<open>
  The promise chain of the \<open>i\<close>-th pending decoding settles. The reader does not order the
  chains: any pending one may be the next to settle.
\<close>

definition settle :: "nat \<Rightarrow> 'm reader \<Rightarrow> 'm reader" where
  "settle i s =
     (if i < length (decoding s)
      then deliverOutcome (decoding s ! i)
             (s\<lparr>decoding := take i (decoding s) @ drop (Suc i) (decoding s)\<rparr>)
      else s)"

subsection \<open>Runs\<close>

text \<open>
  What the environment does to a reader: the stream delivers a chunk, reports an error or
  closes; time passes; a client sets the timeout, calls \<open>listen\<close> or \<open>dispose\<close>; a decoding
  promise settles.
\<close>

datatype action =
    Data bytes
  | StreamError error
  | StreamClose
  | Elapse int
  | SetPartialMessageTimeout int
  | Listen
  | Dispose
  | Settle nat

text \<open>
  The stream calls the handlers registered for a notification one after the other, as many
  as \<open>listen\<close> has registered; an error thrown by a handler ends the notification and
  leaves the stream's handler uncaught.
\<close>

fun emit ::
  "nat \<Rightarrow> ('m reader \<Rightarrow> (error \<times> 'm reader) + 'm reader) \<Rightarrow> 'm reader
     \<Rightarrow> (error \<times> 'm reader) + 'm reader" where
  "emit 0 handler s = Inr s"
| "emit (Suc n) handler s =
     (case handler s of
        Inl thrown \<Rightarrow> Inl thrown
      | Inr s' \<Rightarrow> emit n handler s')"

definition escaped :: "(error \<times> 'm reader) + 'm reader \<Rightarrow> 'm reader" where
  "escaped r = (case r of Inr s' \<Rightarrow> s' | Inl (e, s') \<Rightarrow> s'\<lparr>uncaught := uncaught s' @ [e]\<rparr>)"

fun step :: "action \<Rightarrow> 'm reader \<Rightarrow> 'm reader" where
  "step (Data chunk) s = escaped (emit (listeners s) (onData chunk) s)"
| "step (StreamError e) s = escaped (emit (listeners s) (fireError e) s)"
| "step StreamClose s = escaped (emit (listeners s) (\<lambda>s'. Inr (fireClose s')) s)"
| "step (Elapse d) s = elapse d s"
| "step (SetPartialMessageTimeout timeout) s = setPartialMessageTimeout timeout s"
| "step Listen s = listen s"
| "step Dispose s = dispose s"
| "step (Settle i) s = settle i s"

definition run :: "action list \<Rightarrow> 'm reader \<Rightarrow> 'm reader" where
  "run acts s = fold step acts s"

definition partialMessages :: "'m event list \<Rightarrow> PartialMessageInfo list" where
  "partialMessages evs = concat (map (\<lambda>e. case e of OnPartialMessage info \<Rightarrow> [info] | _ \<Rightarrow> []) evs)"

definition callbacks :: "'m event list \<Rightarrow> 'm list" where
  "callbacks evs = concat (map (\<lambda>e. case e of Callback m \<Rightarrow> [m] | _ \<Rightarrow> []) evs)"

text \<open>
  The chunks that a list of actions delivers; the lists in which the stream only delivers
  data while decodings settle; and those in which the decodings settle in the order in
  which they were started, the oldest pending one each time.
\<close>

definition chunksOf :: "action list \<Rightarrow> bytes list" where
  "chunksOf acts = concat (map (\<lambda>a. case a of Data chunk \<Rightarrow> [chunk] | _ \<Rightarrow> []) acts)"

definition dataOrSettle :: "action \<Rightarrow> bool" where
  "dataOrSettle a = (case a of Data chunk \<Rightarrow> True | Settle i \<Rightarrow> True | _ \<Rightarrow> False)"

definition inStartOrder :: "action \<Rightarrow> bool" where
  "inStartOrder a = (case a of Settle i \<Rightarrow> i = 0 | _ \<Rightarrow> True)"

subsection \<open>Well-framed messages\<close>

text \<open>
  The wire format of the spec: \<open>Content-Length\<close> with the decimal byte count of the body,
  an optional \<open>Content-Type\<close> line, an empty line, the body.
\<close>

record frame =
  contentType :: "string option"
  body :: bytes

fun showNat :: "nat \<Rightarrow> string" where
  "showNat n =
     (if n < 10 then [char_of (48 + n)]
      else showNat (n div 10) @ [char_of (48 + n mod 10)])"

definition encodeFrame :: "frame \<Rightarrow> bytes" where
  "encodeFrame f =
     ''Content-Length: '' @ showNat (length (body f)) @ CRLF
       @ (case contentType f of None \<Rightarrow> [] | Some t \<Rightarrow> ''Content-Type: '' @ t @ CRLF)
       @ CRLF @ body f"

text \<open>A header value holds no line break.\<close>

definition wellFramed :: "frame \<Rightarrow> bool" where
  "wellFramed f =
     (case contentType f of None \<Rightarrow> True | Some t \<Rightarrow> CR \<notin> set t \<and> LF \<notin> set t)"

definition stream :: "frame list \<Rightarrow> bytes" where
  "stream fs = concat (map encodeFrame fs)"

subsection \<open>The outcome of a decoding\<close>

text \<open>
  The promise that starting the decoding of a body creates, if the content decoder does
  not throw.
\<close>

definition decodePromise :: "'m ResolvedMessageReaderOptions \<Rightarrow> bytes \<Rightarrow> (error + bytes) option" where
  "decodePromise opts b =
     (case contentDecoded opts b of
        Throws e \<Rightarrow> None
      | Rejects e \<Rightarrow> Some (Inl e)
      | Resolves v \<Rightarrow> Some (Inr v))"

text \<open>
  The two decoders one after the other: the content decoder, if there is one, then the
  content-type decoder of the options on the value it resolves to.
\<close>

definition decodeBody :: "'m ResolvedMessageReaderOptions \<Rightarrow> bytes \<Rightarrow> 'm outcome" where
  "decodeBody opts b =
     (case contentDecoded opts b of
        Throws e \<Rightarrow> Throws e
      | Rejects e \<Rightarrow> Rejects e
      | Resolves v \<Rightarrow> ctd_decode (contentTypeDecoder opts) v (charset opts))"

text \<open>
  A decoding that ends in a call of the callback or in an \<open>onError\<close> event: the decoders
  resolve, or one of them rejects its promise with a value that \<open>asError\<close> accepts. No
  event belongs to a decoder that throws, nor to a rejection with \<open>null\<close> or \<open>undefined\<close>.
\<close>

definition chainEvent :: "'m ResolvedMessageReaderOptions \<Rightarrow> bytes \<Rightarrow> 'm event option" where
  "chainEvent opts b =
     (case decodeBody opts b of
        Throws e \<Rightarrow> None
      | Rejects e \<Rightarrow> (case asError e of Inl thrown \<Rightarrow> None | Inr err \<Rightarrow> Some (OnError err))
      | Resolves msg \<Rightarrow> Some (Callback msg))"

subsection \<open>Auxiliary notions for the proofs\<close>

text \<open>Decimal digits, and the text of a frame's header block before the empty line.\<close>

definition isDecimal :: "char \<Rightarrow> bool" where
  "isDecimal c = (48 \<le> (of_char c :: nat) \<and> (of_char c :: nat) \<le> 57)"

definition headerText :: "frame \<Rightarrow> string" where
  "headerText f =
     ''Content-Length: '' @ showNat (length (body f))
       @ (case contentType f of None \<Rightarrow> [] | Some t \<Rightarrow> CRLF @ ''Content-Type: '' @ t)"

text \<open>
  The part of the state that the framing reads, with the decodings it has started; the
  part that \<open>onData\<close> leaves alone; the state in which a part of the loop, or a handler,
  leaves the reader; the reader with more bytes in its buffer; the loop from the body on;
  the state in which the decoding of a complete body is started; feeding chunks one after
  the other to \<open>onData\<close>.
\<close>

definition framing :: "'m reader \<Rightarrow> bytes \<times> int \<times> (error + bytes) list" where
  "framing s = (buffer s, nextMessageLength s, decoding s)"

definition framingResult ::
  "(error \<times> 'm reader) + 'm reader
     \<Rightarrow> (error \<times> bytes \<times> int \<times> (error + bytes) list) + (bytes \<times> int \<times> (error + bytes) list)" where
  "framingResult r = map_sum (map_prod id framing) framing r"

definition ambient ::
  "'m reader \<Rightarrow> Emitter \<times> Emitter \<times> Emitter \<times> 'm ResolvedMessageReaderOptions \<times> int \<times> int \<times> int
     \<times> nat \<times> 'm event list \<times> error list \<times> error list" where
  "ambient s =
     (errorEmitter s, closeEmitter s, partialMessageEmitter s, options s, messageToken s,
      partialMessageTimeout s, clock s, listeners s, delivered s, uncaught s, unhandled s)"

fun stateOf :: "'m control \<Rightarrow> 'm reader" where
  "stateOf (Return t) = t"
| "stateOf (Continue t) = t"
| "stateOf (Throw e t) = t"

definition resultState :: "(error \<times> 'm reader) + 'm reader \<Rightarrow> 'm reader" where
  "resultState r = (case r of Inl (e, t) \<Rightarrow> t | Inr t \<Rightarrow> t)"

definition more :: "bytes \<Rightarrow> 'm reader \<Rightarrow> 'm reader" where
  "more x s = s\<lparr>buffer := buffer s @ x\<rparr>"

definition bodyStep :: "'m reader \<Rightarrow> (error \<times> 'm reader) + 'm reader" where
  "bodyStep s1 =
     (case readBody s1 of
        Return t \<Rightarrow> Inr t
      | Throw e t \<Rightarrow> Inl (e, t)
      | Continue s2 \<Rightarrow> onDataLoop s2)"

definition afterBody :: "bytes \<Rightarrow> 'm reader \<Rightarrow> 'm reader" where
  "afterBody rest s = (clearPartialMessageTimer (s\<lparr>buffer := rest\<rparr>))\<lparr>nextMessageLength := - 1\<rparr>"

fun feed :: "bytes list \<Rightarrow> 'm reader \<Rightarrow> (error \<times> 'm reader) + 'm reader" where
  "feed [] s = Inr s"
| "feed (c # cs) s = (case onData c s of Inl thrown \<Rightarrow> Inl thrown | Inr s' \<Rightarrow> feed cs s')"

text \<open>
  The events and the unhandled rejections that the settling of a promise \<open>p\<close> adds, for
  the options and the error emitter of the reader.
\<close>

definition errorEvents :: "Emitter \<Rightarrow> error \<Rightarrow> 'm event list \<times> error list" where
  "errorEvents em e =
     (case asError e of
        Inl thrown \<Rightarrow> ([], [thrown])
      | Inr err \<Rightarrow> (if isDisposed em then [] else [OnError err], []))"

definition settled ::
  "'m ResolvedMessageReaderOptions \<Rightarrow> Emitter \<Rightarrow> error + bytes \<Rightarrow> 'm event list \<times> error list" where
  "settled opts em p =
     (case p of
        Inl e \<Rightarrow> errorEvents em e
      | Inr v \<Rightarrow>
          (case ctd_decode (contentTypeDecoder opts) v (charset opts) of
             Throws e \<Rightarrow> ([], [e])
           | Rejects e \<Rightarrow> errorEvents em e
           | Resolves msg \<Rightarrow> ([Callback msg], [])))"

subsection \<open>Sample readers for the concrete runs\<close>

text \<open>
  A content-type decoder whose message is the body text and which rejects the empty body,
  and the reader constructed without options on it, after \<open>listen\<close>.
\<close>

definition sampleDecoder :: "string ContentTypeDecoder" where
  "sampleDecoder =
     \<lparr>ctd_name = ''application/json'',
      ctd_decode = (\<lambda>b cs. if b = [] then Rejects (Rejection (Some ''Unexpected end of input''))
                             else Resolves b)\<rparr>"

definition sampleReader :: "string reader" where
  "sampleReader = listen (newReader sampleDecoder Undefined 0)"




text \<open>
  The error thrown for a header block, and the header blocks for which one is thrown: no
  \<open>Content-Length\<close> entry, an empty value, or a value that \<open>parseInt\<close> reads as \<open>NaN\<close>.
\<close>

definition framingError :: "(string \<rightharpoonup> string) \<Rightarrow> error" where
  "framingError hs =
     (case hs ''Content-Length'' of
        None \<Rightarrow> Error ''Header must provide a Content-Length property.''
      | Some v \<Rightarrow>
          if v = [] then Error ''Header must provide a Content-Length property.''
          else Error ''Content-Length value must be a number.'')"

definition badContentLength :: "(string \<rightharpoonup> string) \<Rightarrow> bool" where
  "badContentLength hs =
     (case hs ''Content-Length'' of
        None \<Rightarrow> True
      | Some v \<Rightarrow> v = [] \<or> parseInt v = None)"

subsection \<open>Notions for the timer properties\<close>

text \<open>
  An action that does not set a positive timeout; a state with no timer and no positive
  timeout; a state all of whose pending timers are the one the reader holds the handle of;
  a state with at most one pending timer, which is then the one the reader holds the handle
  of; and a state whose only pending timer is the reader's, due at \<open>D\<close>, carrying the current
  token and timeout.
\<close>

definition keepsTimeoutOff :: "action \<Rightarrow> bool" where
  "keepsTimeoutOff a = (case a of SetPartialMessageTimeout timeout \<Rightarrow> timeout \<le> 0 | _ \<Rightarrow> True)"

definition timersOff :: "'m reader \<Rightarrow> bool" where
  "timersOff s = (timers s = [] \<and> partialMessageTimeout s \<le> 0)"

definition handled :: "'m reader \<Rightarrow> bool" where
  "handled s = list_all (\<lambda>t. partialMessageTimer s = Some (tid t)) (timers s)"

definition ownTimer :: "'m reader \<Rightarrow> bool" where
  "ownTimer s =
     (case timers s of
        [] \<Rightarrow> True
      | [t] \<Rightarrow> partialMessageTimer s = Some (tid t)
      | _ \<Rightarrow> False)"

definition noListen :: "action \<Rightarrow> bool" where
  "noListen a = (case a of Listen \<Rightarrow> False | _ \<Rightarrow> True)"

definition armed :: "int \<Rightarrow> 'm reader \<Rightarrow> bool" where
  "armed D s =
     (case timers s of
        [t] \<Rightarrow> partialMessageTimer s = Some (tid t) \<and> due t = D \<and> tok t = messageToken s
               \<and> tmo t = partialMessageTimeout s
      | _ \<Rightarrow> False)"

subsection \<open>The decoder selection described by the spec\<close>

text \<open>
  A second sample decoder, whose message is the reversed body, and options that register
  it without making it the reader's content-type decoder.
\<close>

definition reversingDecoder :: "string ContentTypeDecoder" where
  "reversingDecoder = \<lparr>ctd_name = ''text/reversed'', ctd_decode = (\<lambda>b cs. Resolves (rev b))\<rparr>"

definition sampleOptions :: "string MessageReaderOptions" where
  "sampleOptions =
     \<lparr>opt_charset = None, opt_contentDecoder = None, opt_contentDecoders = None,
      opt_contentTypeDecoder = None, opt_contentTypeDecoders = Some [reversingDecoder]\<rparr>"

text \<open>
  The selection in the words of the spec: by the value of the \<open>Content-Type\<close> header, the
  JSON decoder when the header is absent or names no registered decoder.
\<close>

definition specContentTypeDecoder ::
  "'m ContentTypeDecoder \<Rightarrow> 'm ResolvedMessageReaderOptions \<Rightarrow> (string \<rightharpoonup> string)
     \<Rightarrow> 'm ContentTypeDecoder" where
  "specContentTypeDecoder applicationJson opts headers =
     (case headers ''Content-Type'' of
        None \<Rightarrow> applicationJson
      | Some v \<Rightarrow>
          (case contentTypeDecoders opts v of
             None \<Rightarrow> applicationJson
           | Some decoder \<Rightarrow> decoder))"


section \<open>Properties of the semantic tokens\<close>

subsection \<open>computeDiff\<close>

text \<open>
  Claim C9 (one edit at most; applying the edits to the original sequence yields the
  modified sequence; equal sequences give no edit). The code does not keep the second
  part: the backward scan is not stopped at \<open>startIndex\<close>, so the common suffix may run
  into the common prefix. For the original \<open>[1,1,2,1,1,1]\<close> and the modified \<open>[1,1,1]\<close> it
  returns the single edit "delete 2 at 2, insert nothing", and applying it gives
  \<open>[1,1,1,1]\<close>, which is not the modified sequence.
\<close>

theorem computeDiff_overlapping_suffix:
  "computeDiff [1,1,2,1,1,1] [1,1,1] = [\<lparr>start = 2, deleteCount = 2, edit_data = Some []\<rparr>]
   \<and> applyEdits [1,1,2,1,1,1] (computeDiff [1,1,2,1,1,1] [1,1,1]) = [1,1,1,1]
   \<and> applyEdits [1,1,2,1,1,1] (computeDiff [1,1,2,1,1,1] [1,1,1]) \<noteq> [1,1,1]"
  by (simp add: computeDiff_def slice_def slice_index_def Let_def applyEdits_def applyEdit_def)

subsection \<open>The builder's encoding\<close>

lemma push_fields:
  "dataLen b = length (tokData b) \<Longrightarrow>
   tokData (push line char len ty md b) = tokData b @
     map Some [if dataLen b > 0 then line - prevLine b else line,
      if dataLen b > 0 \<and> line = prevLine b then char - prevChar b else char,
      len, ty, md]
   \<and> dataLen (push line char len ty md b) = length (tokData (push line char len ty md b))
   \<and> prevLine (push line char len ty md b) = line
   \<and> prevChar (push line char len ty md b) = char"
  by (simp add: push_def Let_def array_set_def)

lemma pushAll_deltaEncode:
  "dataLen b = length (tokData b) \<Longrightarrow>
   tokData (pushAll ts b) =
     tokData b @ map Some (deltaEncode (dataLen b = 0) (prevLine b) (prevChar b) ts)"
proof (induction ts arbitrary: b)
  case Nil
  then show ?case by (simp add: pushAll_def)
next
  case (Cons t ts)
  obtain line char len ty md where t: "t = (line, char, len, ty, md)"
    by (cases t) auto
  let ?b = "push line char len ty md b"
  from push_fields [OF Cons.prems, of line char len ty md]
  have f: "tokData ?b = tokData b @
     map Some [if dataLen b > 0 then line - prevLine b else line,
      if dataLen b > 0 \<and> line = prevLine b then char - prevChar b else char,
      len, ty, md]"
    and l: "dataLen ?b = length (tokData ?b)"
    and pl: "prevLine ?b = line" and pc: "prevChar ?b = char"
    by blast+
  have nz: "dataLen ?b \<noteq> 0" using l f by simp
  have "tokData (pushAll (t # ts) b) = tokData (pushAll ts ?b)"
    by (simp add: pushAll_def t)
  also have "\<dots> = tokData ?b @ map Some (deltaEncode False line char ts)"
    using Cons.IH [OF l] nz pl pc by simp
  finally show ?case using f t by auto
qed

lemma builtData_deltaEncode: "builtData dateNow ts = map Some (deltaEncode True 0 0 ts)"
  using pushAll_deltaEncode [of "newBuilder dateNow" ts]
  by (simp add: builtData_def build_def newBuilder_def initialize_def)

lemma length_deltaEncode: "length (deltaEncode first pl pc ts) = 5 * length ts"
  by (induction first pl pc ts rule: deltaEncode.induct) auto

lemma decodeFrom_deltaEncode: "decodeFrom pl pc (deltaEncode False pl pc ts) = ts"
  by (induction ts arbitrary: pl pc) (auto simp: Let_def)

lemma decodeFrom_deltaEncode_first: "decodeFrom 0 0 (deltaEncode True pl pc ts) = ts"
  by (cases ts) (auto simp: Let_def decodeFrom_deltaEncode)

lemma nth_deltaEncode:
  "i < length ts \<Longrightarrow>
   deltaEncode first pl pc ts ! (5 * i) =
     (if i = 0 then (if first then tokLine (ts ! 0) else tokLine (ts ! 0) - pl)
      else tokLine (ts ! i) - tokLine (ts ! (i - 1)))
 \<and> deltaEncode first pl pc ts ! (5 * i + 1) =
     (if i = 0 then (if \<not> first \<and> tokLine (ts ! 0) = pl then tokChar (ts ! 0) - pc else tokChar (ts ! 0))
      else if tokLine (ts ! i) = tokLine (ts ! (i - 1)) then tokChar (ts ! i) - tokChar (ts ! (i - 1))
      else tokChar (ts ! i))
 \<and> deltaEncode first pl pc ts ! (5 * i + 2) = tokLength (ts ! i)
 \<and> deltaEncode first pl pc ts ! (5 * i + 3) = tokType (ts ! i)
 \<and> deltaEncode first pl pc ts ! (5 * i + 4) = tokModifiers (ts ! i)"
proof (induction first pl pc ts arbitrary: i rule: deltaEncode.induct)
  case (1 first pl pc)
  then show ?case by simp
next
  case (2 first pl pc line char len ty md ts i)
  show ?case
  proof (cases i)
    case 0
    then show ?thesis
      by (simp add: tokLine_def tokChar_def tokLength_def tokType_def tokModifiers_def)
  next
    case (Suc j)
    note ij = Suc
    have j: "j < length ts" using ij "2.prems" by simp
    note IH = "2.IH" [OF j]
    have skip: "\<And>m a b c d e xs. (a # b # c # d # e # xs) ! (5 * Suc j + m) = (xs::int list) ! (5 * j + m)"
      by simp
    note skip0 = skip [of _ _ _ _ _ _ 0, simplified]
    show ?thesis
      unfolding ij deltaEncode.simps append_Cons append_Nil skip skip0
      using IH
      by (cases j) (simp_all add: tokLine_def tokChar_def tokLength_def tokType_def tokModifiers_def)
  qed
qed


text \<open>
  Claim C10: after \<open>k\<close> pushes on a fresh builder the built data array has length \<open>5k\<close>;
  token \<open>i\<close> stores its line minus the previous token's line in slot \<open>5i\<close> (its absolute
  line for \<open>i = 0\<close>), its character minus the previous token's character in slot \<open>5i+1\<close>
  exactly when the two lines are equal (its absolute character otherwise), and length,
  token type and token modifiers unchanged in the next three slots; the pushed tokens, with
  their absolute positions, are computed back from the data array by \<open>decodeTokens\<close>.
\<close>

theorem builder_delta_encoding:
  "length (builtData dateNow ts) = 5 * length ts
   \<and> (\<forall>i < length ts.
        builtData dateNow ts ! (5 * i) =
          Some (if i = 0 then tokLine (ts ! i) else tokLine (ts ! i) - tokLine (ts ! (i - 1)))
      \<and> builtData dateNow ts ! (5 * i + 1) =
          Some (if 0 < i \<and> tokLine (ts ! i) = tokLine (ts ! (i - 1))
                then tokChar (ts ! i) - tokChar (ts ! (i - 1)) else tokChar (ts ! i))
      \<and> builtData dateNow ts ! (5 * i + 2) = Some (tokLength (ts ! i))
      \<and> builtData dateNow ts ! (5 * i + 3) = Some (tokType (ts ! i))
      \<and> builtData dateNow ts ! (5 * i + 4) = Some (tokModifiers (ts ! i)))
   \<and> decodeTokens (builtData dateNow ts) = ts"
proof (intro conjI allI impI)
  show len: "length (builtData dateNow ts) = 5 * length ts"
    by (simp add: builtData_deltaEncode length_deltaEncode)
  show "decodeTokens (builtData dateNow ts) = ts"
    by (simp add: decodeTokens_def builtData_deltaEncode decodeFrom_deltaEncode_first comp_def)
next
  fix i assume i: "i < length ts"
  then have b: "5 * i + 4 < length (deltaEncode True 0 0 ts)"
    by (simp add: length_deltaEncode)
  note n = nth_deltaEncode [OF i, of True 0 0]
  show "builtData dateNow ts ! (5 * i) =
          Some (if i = 0 then tokLine (ts ! i) else tokLine (ts ! i) - tokLine (ts ! (i - 1)))"
    using n b by (simp add: builtData_deltaEncode)
  show "builtData dateNow ts ! (5 * i + 1) =
          Some (if 0 < i \<and> tokLine (ts ! i) = tokLine (ts ! (i - 1))
                then tokChar (ts ! i) - tokChar (ts ! (i - 1)) else tokChar (ts ! i))"
    using n b by (simp add: builtData_deltaEncode)
  show "builtData dateNow ts ! (5 * i + 2) = Some (tokLength (ts ! i))"
    using n b by (simp add: builtData_deltaEncode)
  show "builtData dateNow ts ! (5 * i + 3) = Some (tokType (ts ! i))"
    using n b by (simp add: builtData_deltaEncode)
  show "builtData dateNow ts ! (5 * i + 4) = Some (tokModifiers (ts ! i))"
    using n b by (simp add: builtData_deltaEncode)
qed

theorem builder_delta_encoding_witness:
  "builtData 7 [(2,5,3,0,0),(2,9,1,1,0),(4,1,2,0,3)]
     = map Some [2,5,3,0,0, 0,4,1,1,0, 2,1,2,0,3]
   \<and> builtData 7 [(2,5,3,0,0),(2,9,1,1,0),(4,1,2,0,3)] ! (5 * 1 + 1) = Some 4
   \<and> decodeTokens (builtData 7 [(2,5,3,0,0),(2,9,1,1,0),(4,1,2,0,3)])
       = [(2,5,3,0,0),(2,9,1,1,0),(4,1,2,0,3)]"
  using builder_delta_encoding [of 7 "[(2,5,3,0,0),(2,9,1,1,0),(4,1,2,0,3)]"]
  by (simp add: builtData_deltaEncode tokLine_def tokChar_def)


section \<open>Properties of the message reader\<close>

declare showNat.simps [simp del]
declare onDataLoop.simps [simp del]
declare runTimers.simps [simp del]

subsection \<open>Header blocks of well-framed messages\<close>

lemma CR_LF_simps: "CR \<noteq> LF" "LF \<noteq> CR"
  by (simp_all add: CR_def LF_def)

lemma take4_CRLF2: "take 4 (c # cs) = CRLF @ CRLF \<Longrightarrow> \<exists>r. c # cs = CRLF @ CRLF @ r"
  by (metis append_take_drop_id append.assoc)

lemma splitHeaderBlock_append:
  "splitHeaderBlock b = Some (h, r) \<Longrightarrow> splitHeaderBlock (b @ x) = Some (h, r @ x)"
proof (induction b arbitrary: h)
  case Nil
  then show ?case by simp
next
  case (Cons c cs)
  show ?case
  proof (cases "take 4 (c # cs) = CRLF @ CRLF")
    case True
    then obtain r' where r': "c # cs = CRLF @ CRLF @ r'" using take4_CRLF2 by blast
    then show ?thesis using Cons.prems True by (auto simp: CRLF_def)
  next
    case False
    with Cons.prems obtain h' where h': "splitHeaderBlock cs = Some (h', r)" "h = c # h'"
      by (auto split: option.splits)
    from splitHeaderBlock_length [OF h'(1)] have "4 \<le> length cs" by simp
    then have t: "take 4 (c # (cs @ x)) = take 4 (c # cs)" by simp
    show ?thesis
      unfolding append_Cons splitHeaderBlock.simps t
      using False h' Cons.IH [OF h'(1)] by simp
  qed
qed

lemma splitHeaderBlock_line:
  "CR \<notin> set l \<Longrightarrow> splitHeaderBlock (l @ CRLF @ CRLF @ rest) = Some (l, rest)"
proof (induction l)
  case Nil
  then show ?case by (simp add: CRLF_def)
next
  case (Cons c l)
  then have "take 4 ((c # l) @ CRLF @ CRLF @ rest) \<noteq> CRLF @ CRLF"
    by (auto simp: CRLF_def)
  with Cons show ?case by simp
qed

lemma splitHeaderBlock_lines2:
  assumes "CR \<notin> set l1" "CR \<notin> set l2" "l2 \<noteq> []"
  shows "splitHeaderBlock (l1 @ CRLF @ l2 @ CRLF @ CRLF @ rest) = Some (l1 @ CRLF @ l2, rest)"
  using assms(1)
proof (induction l1)
  case Nil
  obtain d l2' where l2: "l2 = d # l2'" "d \<noteq> CR" using assms(2,3) by (cases l2) auto
  have "splitHeaderBlock (l2 @ CRLF @ CRLF @ rest) = Some (l2, rest)"
    using assms(2) by (rule splitHeaderBlock_line)
  then show ?case using l2 by (simp add: CRLF_def CR_LF_simps)
next
  case (Cons c l)
  then have "take 4 ((c # l) @ CRLF @ l2 @ CRLF @ CRLF @ rest) \<noteq> CRLF @ CRLF"
    by (auto simp: CRLF_def)
  with Cons show ?case by simp
qed

lemma splitCRLF_line: "CR \<notin> set l \<Longrightarrow> splitCRLF l = [l]"
  by (induction l rule: splitCRLF.induct) auto

lemma splitCRLF_lines: "CR \<notin> set l \<Longrightarrow> splitCRLF (l @ CRLF @ x) = l # splitCRLF x"
proof (induction l)
  case Nil
  then show ?case by (simp add: CRLF_def)
next
  case (Cons c l)
  then obtain d ds where "l @ CRLF @ x = d # ds" by (cases l) (auto simp: CRLF_def)
  with Cons show ?case by auto
qed

lemma isDecimal_char_of: "(d::nat) < 10 \<Longrightarrow> isDecimal (char_of (48 + d))"
  by (simp add: isDecimal_def)

lemma showNat_decimal: "list_all isDecimal (showNat n)"
proof (induction n rule: showNat.induct)
  case (1 n)
  show ?case
  proof (cases "n < 10")
    case True
    then show ?thesis by (subst showNat.simps) (simp add: isDecimal_char_of)
  next
    case False
    then show ?thesis using 1 by (subst showNat.simps) (simp add: isDecimal_char_of)
  qed
qed

lemma showNat_nonempty: "showNat n \<noteq> []"
  by (subst showNat.simps) simp

lemma isDecimal_facts:
  assumes "isDecimal c"
  shows "\<not> isWhiteSpace c" "c \<noteq> CR" "c \<noteq> LF" "c \<noteq> CHR ''-''" "c \<noteq> CHR ''+''"
    "c \<noteq> CHR ''x''" "c \<noteq> CHR ''X''" "c \<noteq> CHR '':''"
    "isRadixDigit 10 c" "digitValue c = Some (of_char c - 48)"
  using assms
  by (auto simp: isDecimal_def isWhiteSpace_def CR_def LF_def isRadixDigit_def digitValue_def)

lemma digitsValue_snoc:
  "digitsValue r (ds @ [c]) = digitsValue r ds * r + (case digitValue c of None \<Rightarrow> 0 | Some v \<Rightarrow> v)"
  by (simp add: digitsValue_def)

lemma digitValue_char_of: "(d::nat) < 10 \<Longrightarrow> digitValue (char_of (48 + d)) = Some d"
  by (simp add: digitValue_def)

lemma digitsValue_showNat: "digitsValue 10 (showNat n) = n"
proof (induction n rule: showNat.induct)
  case (1 n)
  show ?case
  proof (cases "n < 10")
    case True
    then show ?thesis
      by (subst showNat.simps) (simp add: digitsValue_def digitValue_char_of)
  next
    case False
    then show ?thesis using 1
      by (subst showNat.simps) (simp add: digitsValue_snoc digitValue_char_of)
  qed
qed

lemma decimal_not_CR: "list_all isDecimal ds \<Longrightarrow> CR \<notin> set ds"
  using isDecimal_facts(2) by (auto simp: list_all_iff)

lemma parseInt_decimal:
  assumes d: "list_all isDecimal ds" and ne: "ds \<noteq> []"
  shows "parseInt ds = Some (int (digitsValue 10 ds))"
proof -
  obtain c cs where ds: "ds = c # cs" using ne by (cases ds) auto
  have c: "isDecimal c" using d ds by simp
  have ws: "dropWhile isWhiteSpace ds = ds"
    using ds isDecimal_facts(1) [OF c] by simp
  have sign: "take 1 ds \<noteq> ''-''" "take 1 ds \<noteq> ''+''"
    using ds isDecimal_facts(4,5) [OF c] by simp_all
  have hex: "take 2 ds \<noteq> ''0x''" "take 2 ds \<noteq> ''0X''"
  proof -
    show "take 2 ds \<noteq> ''0x''"
    proof (cases cs)
      case Nil
      then show ?thesis using ds by simp
    next
      case (Cons e es)
      then have "isDecimal e" using d ds by simp
      from isDecimal_facts(6) [OF this] show ?thesis using ds Cons by simp
    qed
    show "take 2 ds \<noteq> ''0X''"
    proof (cases cs)
      case Nil
      then show ?thesis using ds by simp
    next
      case (Cons e es)
      then have "isDecimal e" using d ds by simp
      from isDecimal_facts(7) [OF this] show ?thesis using ds Cons by simp
    qed
  qed
  have tw: "takeWhile (isRadixDigit 10) ds = ds"
    using d isDecimal_facts(9) by (auto simp: list_all_iff takeWhile_eq_all_conv)
  have "parseInt ds =
      (if takeWhile (isRadixDigit 10) ds = [] then None
       else Some (int (digitsValue 10 (takeWhile (isRadixDigit 10) ds))))"
    unfolding parseInt_def Let_def ws using sign hex by simp
  then show ?thesis unfolding tw using ne by simp
qed

lemma parseInt_showNat: "parseInt (showNat n) = Some (int n)"
  using parseInt_decimal [OF showNat_decimal showNat_nonempty, of n]
  by (simp add: digitsValue_showNat)

lemma trim_value:
  assumes d: "list_all isDecimal ds" and ne: "ds \<noteq> []"
  shows "trim ('' '' @ ds) = ds"
proof -
  have h: "\<not> isWhiteSpace (hd ds)" using d ne isDecimal_facts(1) by (cases ds) auto
  have l: "\<not> isWhiteSpace (last ds)"
    using d ne isDecimal_facts(1) by (auto simp: list_all_iff)
  have "dropWhile isWhiteSpace ('' '' @ ds) = ds"
    using h ne by (cases ds) (auto simp: isWhiteSpace_def)
  moreover have "dropWhile isWhiteSpace (rev ds) = rev ds"
    using l ne by (simp add: dropWhile_eq_self_iff hd_rev)
  ultimately show ?thesis by (simp add: trim_def)
qed

lemma parseHeaderLine_contentLength:
  assumes "list_all isDecimal ds" "ds \<noteq> []"
  shows "parseHeaderLine (''Content-Length: '' @ ds) = Some (''Content-Length'', ds)"
  using trim_value [OF assms] by (simp add: parseHeaderLine_def)

lemma parseHeaderLine_contentType:
  "\<exists>v. parseHeaderLine (''Content-Type: '' @ t) = Some (''Content-Type'', v)"
  by (simp add: parseHeaderLine_def)

lemma encodeFrame_headerText: "encodeFrame f = headerText f @ CRLF @ CRLF @ body f"
  by (simp add: encodeFrame_def headerText_def split: option.splits)

lemma contentLength_line_no_CR: "CR \<notin> set (''Content-Length: '' @ showNat n)"
  using decimal_not_CR [OF showNat_decimal, of n] by (simp add: CR_def)

lemma splitHeaderBlock_frame:
  assumes "wellFramed f"
  shows "splitHeaderBlock (encodeFrame f @ rest) = Some (headerText f, body f @ rest)"
proof (cases "contentType f")
  case None
  then show ?thesis
    using splitHeaderBlock_line [OF contentLength_line_no_CR, of "length (body f)" "body f @ rest"]
    by (simp add: encodeFrame_def headerText_def)
next
  case (Some t)
  then have t: "CR \<notin> set (''Content-Type: '' @ t)"
    using assms by (simp add: wellFramed_def CR_def)
  show ?thesis
    using splitHeaderBlock_lines2 [OF contentLength_line_no_CR t, of "length (body f)" "body f @ rest"] Some
    by (simp add: encodeFrame_def headerText_def)
qed

lemma headers_frame:
  assumes "wellFramed f"
  shows "headersOf (splitCRLF (headerText f)) ''Content-Length'' = Some (showNat (length (body f)))"
proof (cases "contentType f")
  case None
  then show ?thesis
    using splitCRLF_line [OF contentLength_line_no_CR, of "length (body f)"]
      parseHeaderLine_contentLength [OF showNat_decimal showNat_nonempty, of "length (body f)"]
    by (simp add: headerText_def headersOf_def)
next
  case (Some t)
  then have t: "CR \<notin> set (''Content-Type: '' @ t)"
    using assms by (simp add: wellFramed_def CR_def)
  obtain v where v: "parseHeaderLine (''Content-Type: '' @ t) = Some (''Content-Type'', v)"
    using parseHeaderLine_contentType by blast
  have "splitCRLF (headerText f) = [''Content-Length: '' @ showNat (length (body f)), ''Content-Type: '' @ t]"
    using splitCRLF_lines [OF contentLength_line_no_CR, of "length (body f)" "''Content-Type: '' @ t"]
      splitCRLF_line [OF t] Some
    by (simp add: headerText_def)
  then show ?thesis
    using parseHeaderLine_contentLength [OF showNat_decimal showNat_nonempty, of "length (body f)"] v
    by (simp add: headersOf_def)
qed

lemma tryReadHeaders_frame:
  assumes "wellFramed f"
  shows "\<exists>hs. tryReadHeaders (encodeFrame f @ rest) = Some (hs, body f @ rest)
           \<and> hs ''Content-Length'' = Some (showNat (length (body f)))"
  using splitHeaderBlock_frame [OF assms, of rest] headers_frame [OF assms]
  by (simp add: tryReadHeaders_def)

lemma tryReadBody_exact: "tryReadBody (b @ rest) (int (length b)) = Some (b, rest)"
  by (simp add: tryReadBody_def)


subsection \<open>The loop of onData\<close>

lemma onDataLoop_bodyStep:
  "onDataLoop s =
     (case readHeaders s of
        Return t \<Rightarrow> Inr t
      | Throw e t \<Rightarrow> Inl (e, t)
      | Continue s1 \<Rightarrow> bodyStep s1)"
  by (subst onDataLoop.simps) (simp add: bodyStep_def split: control.splits)

lemma resultState_simps [simp]:
  "resultState (Inl (e, t)) = t" "resultState (Inr t) = t"
  by (simp_all add: resultState_def)

text \<open>A property kept by both parts of the loop body holds when \<open>onData\<close> is left.\<close>

lemma onDataLoop_invariant:
  assumes "P s"
    and "\<And>u. P u \<Longrightarrow> P (stateOf (readHeaders u))"
    and "\<And>u. P u \<Longrightarrow> P (stateOf (readBody u))"
  shows "P (resultState (onDataLoop s))"
  using assms(1)
proof (induction s rule: onDataLoop.induct)
  case (1 s)
  from assms(2) [OF "1.prems"] have h: "P (stateOf (readHeaders s))" .
  show ?case
  proof (cases "readHeaders s")
    case (Return t)
    with h show ?thesis unfolding onDataLoop.simps [of s] by simp
  next
    case (Throw e t)
    with h show ?thesis unfolding onDataLoop.simps [of s] by simp
  next
    case (Continue s1)
    with h have p1: "P s1" by simp
    from assms(3) [OF p1] have b: "P (stateOf (readBody s1))" .
    show ?thesis
    proof (cases "readBody s1")
      case (Return t)
      with b Continue show ?thesis unfolding onDataLoop.simps [of s] by simp
    next
      case (Throw e t)
      with b Continue show ?thesis unfolding onDataLoop.simps [of s] by simp
    next
      case c2: (Continue s2)
      with b have p2: "P s2" by simp
      have l: "onDataLoop s = onDataLoop s2"
        unfolding onDataLoop.simps [of s] using Continue c2 by simp
      show ?thesis unfolding l by (rule "1.IH" [OF Continue c2 p2])
    qed
  qed
qed

lemma emit_invariant:
  assumes "P s" and "\<And>u. P u \<Longrightarrow> P (resultState (handler u))"
  shows "P (resultState (emit n handler s))"
  using assms(1)
proof (induction n arbitrary: s)
  case 0
  then show ?case by simp
next
  case (Suc n)
  from assms(2) [OF Suc.prems] have h: "P (resultState (handler s))" .
  show ?case
  proof (cases "handler s")
    case (Inl thrown)
    with h show ?thesis by simp
  next
    case (Inr s')
    with h Suc.IH [of s'] show ?thesis by simp
  qed
qed

lemma emit_one: "emit (Suc 0) handler s = handler s"
  by (simp split: sum.splits)

text \<open>What \<open>onData\<close> leaves alone.\<close>

lemma framing_timer [simp]:
  "framing (clearPartialMessageTimer s) = framing s"
  "framing (setPartialMessageTimer s) = framing s"
  by (auto simp: framing_def setPartialMessageTimer_def clearPartialMessageTimer_def
      clearTimeout_def setTimeout_def Let_def split: option.splits)

lemma ambient_timer [simp]:
  "ambient (clearPartialMessageTimer s) = ambient s"
  "ambient (setPartialMessageTimer s) = ambient s"
  by (auto simp: ambient_def setPartialMessageTimer_def clearPartialMessageTimer_def
      clearTimeout_def setTimeout_def Let_def split: option.splits)

lemma ambient_readHeaders: "ambient (stateOf (readHeaders s)) = ambient s"
  by (auto simp: readHeaders_def ambient_def Let_def split: if_splits option.splits)

lemma afterBody_fields [simp]:
  "buffer (afterBody r s) = r"
  "nextMessageLength (afterBody r s) = - 1"
  "decoding (afterBody r s) = decoding s"
  "options (afterBody r s) = options s"
  "ambient (afterBody r s) = ambient s"
  by (simp_all add: afterBody_def ambient_def clearPartialMessageTimer_def clearTimeout_def
      split: option.splits)

lemma startDecoding_fields [simp]:
  "buffer (startDecoding p s) = buffer s"
  "nextMessageLength (startDecoding p s) = nextMessageLength s"
  "decoding (startDecoding p s) = decoding s @ [p]"
  "options (startDecoding p s) = options s"
  "ambient (startDecoding p s) = ambient s"
  by (simp_all add: startDecoding_def ambient_def)

lemma timer_fields [simp]:
  "buffer (setPartialMessageTimer s) = buffer s"
  "nextMessageLength (setPartialMessageTimer s) = nextMessageLength s"
  "decoding (setPartialMessageTimer s) = decoding s"
  "options (setPartialMessageTimer s) = options s"
  using framing_timer(2) [of s] ambient_timer(2) [of s]
  by (simp_all add: framing_def ambient_def)

lemma readBody_None:
  "tryReadBody (buffer s) (nextMessageLength s) = None \<Longrightarrow>
   readBody s = Return (setPartialMessageTimer s)"
  by (simp add: readBody_def)

lemma readBody_Some:
  "tryReadBody (buffer s) (nextMessageLength s) = Some (bd, rest) \<Longrightarrow>
   readBody s =
     (case contentDecoded (options s) bd of
        Throws e \<Rightarrow> Throw e (afterBody rest s)
      | Rejects e \<Rightarrow> Continue (startDecoding (Inl e) (afterBody rest s))
      | Resolves v \<Rightarrow> Continue (startDecoding (Inr v) (afterBody rest s)))"
  using afterBody_fields(4) [of rest s]
  by (simp add: readBody_def Let_def afterBody_def [symmetric] del: afterBody_fields)

lemma readBody_cases:
  obtains (incomplete) "tryReadBody (buffer s) (nextMessageLength s) = None"
      "readBody s = Return (setPartialMessageTimer s)"
    | (throws) bd rest e where "tryReadBody (buffer s) (nextMessageLength s) = Some (bd, rest)"
      "contentDecoded (options s) bd = Throws e" "readBody s = Throw e (afterBody rest s)"
    | (started) bd rest p where "tryReadBody (buffer s) (nextMessageLength s) = Some (bd, rest)"
      "decodePromise (options s) bd = Some p"
      "readBody s = Continue (startDecoding p (afterBody rest s))"
proof (cases "tryReadBody (buffer s) (nextMessageLength s)")
  case None
  from None readBody_None [OF None] show ?thesis by (rule incomplete)
next
  case (Some pr)
  obtain bd rest where pr: "pr = (bd, rest)" by (cases pr)
  note t = Some [unfolded pr]
  note r = readBody_Some [OF t]
  show ?thesis
  proof (cases "contentDecoded (options s) bd")
    case (Throws e)
    with r have "readBody s = Throw e (afterBody rest s)" by simp
    with t Throws show ?thesis by (rule throws)
  next
    case (Rejects e)
    with r have "readBody s = Continue (startDecoding (Inl e) (afterBody rest s))" by simp
    moreover have "decodePromise (options s) bd = Some (Inl e)"
      using Rejects by (simp add: decodePromise_def)
    ultimately show ?thesis using t by (intro started)
  next
    case (Resolves v)
    with r have "readBody s = Continue (startDecoding (Inr v) (afterBody rest s))" by simp
    moreover have "decodePromise (options s) bd = Some (Inr v)"
      using Resolves by (simp add: decodePromise_def)
    ultimately show ?thesis using t by (intro started)
  qed
qed

lemma ambient_readBody: "ambient (stateOf (readBody s)) = ambient s"
  by (cases s rule: readBody_cases) simp_all

lemma ambient_onDataLoop: "ambient (resultState (onDataLoop s)) = ambient s"
  by (rule onDataLoop_invariant [where P = "\<lambda>u. ambient u = ambient s"])
    (simp_all add: ambient_readHeaders ambient_readBody)

lemma ambient_onData: "ambient (resultState (onData c s)) = ambient s"
  using ambient_onDataLoop [of "s\<lparr>buffer := buffer s @ c\<rparr>"]
  by (simp add: onData_def ambient_def)

lemma ambient_feed: "feed chunks s = Inr t \<Longrightarrow> ambient t = ambient s"
proof (induction chunks arbitrary: s)
  case Nil
  then show ?case by simp
next
  case (Cons c cs)
  then obtain s1 where s1: "onData c s = Inr s1" "feed cs s1 = Inr t"
    by (auto split: sum.splits)
  with Cons.IH [OF s1(2)] ambient_onData [of c s] show ?case by simp
qed

text \<open>
  Two readers with the same buffer, the same \<open>nextMessageLength\<close> and the same options
  are left by the loop in the same way, with the same buffer and \<open>nextMessageLength\<close>, and
  have started the same decodings.
\<close>

lemma readHeaders_alike:
  assumes "buffer s = buffer t" and "nextMessageLength s = nextMessageLength t"
  shows "(\<exists>s' t'. readHeaders s = Return s' \<and> readHeaders t = Return t'
            \<and> buffer s' = buffer t' \<and> nextMessageLength s' = nextMessageLength t'
            \<and> decoding s' = decoding s \<and> decoding t' = decoding t)
       \<or> (\<exists>e s' t'. readHeaders s = Throw e s' \<and> readHeaders t = Throw e t'
            \<and> buffer s' = buffer t' \<and> nextMessageLength s' = nextMessageLength t'
            \<and> decoding s' = decoding s \<and> decoding t' = decoding t)
       \<or> (\<exists>s' t'. readHeaders s = Continue s' \<and> readHeaders t = Continue t'
            \<and> buffer s' = buffer t' \<and> nextMessageLength s' = nextMessageLength t'
            \<and> decoding s' = decoding s \<and> decoding t' = decoding t)"
  using assms by (auto simp: readHeaders_def Let_def split: option.splits)

lemma readBody_alike:
  assumes "buffer s = buffer t" and "nextMessageLength s = nextMessageLength t"
    and "options s = options t"
  shows "(\<exists>s' t'. readBody s = Return s' \<and> readBody t = Return t'
            \<and> buffer s' = buffer t' \<and> nextMessageLength s' = nextMessageLength t'
            \<and> decoding s' = decoding s \<and> decoding t' = decoding t)
       \<or> (\<exists>e s' t'. readBody s = Throw e s' \<and> readBody t = Throw e t'
            \<and> buffer s' = buffer t' \<and> nextMessageLength s' = nextMessageLength t'
            \<and> decoding s' = decoding s \<and> decoding t' = decoding t)
       \<or> (\<exists>p s' t'. readBody s = Continue s' \<and> readBody t = Continue t'
            \<and> buffer s' = buffer t' \<and> nextMessageLength s' = nextMessageLength t'
            \<and> decoding s' = decoding s @ [p] \<and> decoding t' = decoding t @ [p])"
proof (cases t rule: readBody_cases)
  case incomplete
  with readBody_None [of s] assms show ?thesis by simp
next
  case (throws bd rest e)
  with readBody_Some [of s bd rest] assms show ?thesis by simp
next
  case (started bd rest p)
  from started(1) assms have "tryReadBody (buffer s) (nextMessageLength s) = Some (bd, rest)"
    by simp
  from readBody_Some [OF this] started(2) assms(3)
  have "readBody s = Continue (startDecoding p (afterBody rest s))"
    by (auto simp: decodePromise_def split: outcome.splits)
  with started(3) show ?thesis by simp
qed

lemma onDataLoop_alike:
  assumes "buffer s = buffer t" and "nextMessageLength s = nextMessageLength t"
    and "options s = options t"
  shows "\<exists>X s' t'.
           ((\<exists>e. onDataLoop s = Inl (e, s') \<and> onDataLoop t = Inl (e, t'))
            \<or> (onDataLoop s = Inr s' \<and> onDataLoop t = Inr t'))
           \<and> buffer s' = buffer t' \<and> nextMessageLength s' = nextMessageLength t'
           \<and> decoding s' = decoding s @ X \<and> decoding t' = decoding t @ X"
  using assms
proof (induction s arbitrary: t rule: onDataLoop.induct)
  case (1 s)
  from readHeaders_alike [OF "1.prems"(1,2)]
  consider (ret) s' t' where "readHeaders s = Return s'" "readHeaders t = Return t'"
      "buffer s' = buffer t'" "nextMessageLength s' = nextMessageLength t'"
      "decoding s' = decoding s" "decoding t' = decoding t"
    | (thr) e s' t' where "readHeaders s = Throw e s'" "readHeaders t = Throw e t'"
      "buffer s' = buffer t'" "nextMessageLength s' = nextMessageLength t'"
      "decoding s' = decoding s" "decoding t' = decoding t"
    | (con) s1 t1 where "readHeaders s = Continue s1" "readHeaders t = Continue t1"
      "buffer s1 = buffer t1" "nextMessageLength s1 = nextMessageLength t1"
      "decoding s1 = decoding s" "decoding t1 = decoding t"
    by blast
  then show ?case
  proof cases
    case ret
    then show ?thesis
      unfolding onDataLoop.simps [of s] onDataLoop.simps [of t] by auto
  next
    case thr
    then show ?thesis
      unfolding onDataLoop.simps [of s] onDataLoop.simps [of t] by auto
  next
    case con
    have o1: "options s1 = options t1"
      using ambient_readHeaders [of s] ambient_readHeaders [of t] con(1,2) "1.prems"(3)
      by (simp add: ambient_def)
    from readBody_alike [OF con(3,4) o1]
    consider (bret) s' t' where "readBody s1 = Return s'" "readBody t1 = Return t'"
        "buffer s' = buffer t'" "nextMessageLength s' = nextMessageLength t'"
        "decoding s' = decoding s1" "decoding t' = decoding t1"
      | (bthr) e s' t' where "readBody s1 = Throw e s'" "readBody t1 = Throw e t'"
        "buffer s' = buffer t'" "nextMessageLength s' = nextMessageLength t'"
        "decoding s' = decoding s1" "decoding t' = decoding t1"
      | (bcon) p s2 t2 where "readBody s1 = Continue s2" "readBody t1 = Continue t2"
        "buffer s2 = buffer t2" "nextMessageLength s2 = nextMessageLength t2"
        "decoding s2 = decoding s1 @ [p]" "decoding t2 = decoding t1 @ [p]"
      by blast
    then show ?thesis
    proof cases
      case bret
      with con show ?thesis
        unfolding onDataLoop.simps [of s] onDataLoop.simps [of t] by auto
    next
      case bthr
      with con show ?thesis
        unfolding onDataLoop.simps [of s] onDataLoop.simps [of t] by auto
    next
      case bcon
      have o2: "options s2 = options t2"
        using ambient_readBody [of s1] ambient_readBody [of t1] bcon(1,2) o1
        by (simp add: ambient_def)
      have ls: "onDataLoop s = onDataLoop s2"
        unfolding onDataLoop.simps [of s] using con(1) bcon(1) by simp
      have lt: "onDataLoop t = onDataLoop t2"
        unfolding onDataLoop.simps [of t] using con(2) bcon(2) by simp
      from "1.IH" [OF con(1) bcon(1) bcon(3,4) o2]
      obtain X s' t' where r: "(\<exists>e. onDataLoop s2 = Inl (e, s') \<and> onDataLoop t2 = Inl (e, t'))
            \<or> (onDataLoop s2 = Inr s' \<and> onDataLoop t2 = Inr t')"
        and f: "buffer s' = buffer t'" "nextMessageLength s' = nextMessageLength t'"
          "decoding s' = decoding s2 @ X" "decoding t' = decoding t2 @ X"
        by blast
      have "decoding s' = decoding s @ (p # X)" "decoding t' = decoding t @ (p # X)"
        using f(3,4) bcon(5,6) con(5,6) by simp_all
      with r f(1,2) show ?thesis unfolding ls lt by blast
    qed
  qed
qed

lemma onDataLoop_cong:
  assumes "framing s = framing t" and "options s = options t"
  shows "framingResult (onDataLoop s) = framingResult (onDataLoop t)"
proof -
  from assms(1) have b: "buffer s = buffer t" "nextMessageLength s = nextMessageLength t"
    and d: "decoding s = decoding t" by (simp_all add: framing_def)
  from onDataLoop_alike [OF b assms(2)] d show ?thesis
    by (auto simp: framingResult_def framing_def)
qed

text \<open>Resuming with more bytes.\<close>

lemma tryReadHeaders_append:
  "tryReadHeaders b = Some (hs, r) \<Longrightarrow> tryReadHeaders (b @ x) = Some (hs, r @ x)"
  by (auto simp: tryReadHeaders_def splitHeaderBlock_append split: option.splits)

lemma tryReadBody_append:
  "tryReadBody b n = Some (bd, r) \<Longrightarrow> tryReadBody (b @ x) n = Some (bd, r @ x)"
  by (auto simp: tryReadBody_def split: if_splits)

lemma readHeaders_more:
  "readHeaders s = Throw e s1 \<Longrightarrow> readHeaders (more x s) = Throw e (more x s1)"
  "readHeaders s = Continue s1 \<Longrightarrow> readHeaders (more x s) = Continue (more x s1)"
  by (auto simp: readHeaders_def more_def Let_def tryReadHeaders_append
      split: if_splits option.splits)

lemma more_afterBody: "more x (afterBody r s) = afterBody (r @ x) (more x s)"
  by (simp add: more_def afterBody_def clearPartialMessageTimer_def clearTimeout_def
      split: option.splits)

lemma more_startDecoding: "more x (startDecoding p s) = startDecoding p (more x s)"
  by (simp add: more_def startDecoding_def)

lemma more_fields [simp]:
  "options (more x s) = options s" "buffer (more x s) = buffer s @ x"
  "nextMessageLength (more x s) = nextMessageLength s"
  by (simp_all add: more_def)

lemma readBody_more:
  "readBody s1 = Continue s2 \<Longrightarrow> readBody (more x s1) = Continue (more x s2)"
  "readBody s1 = Throw e s2 \<Longrightarrow> readBody (more x s1) = Throw e (more x s2)"
proof -
  show "readBody s1 = Continue s2 \<Longrightarrow> readBody (more x s1) = Continue (more x s2)"
  proof (cases s1 rule: readBody_cases)
    case (started bd rest p)
    assume "readBody s1 = Continue s2"
    with started(3) have s2: "s2 = startDecoding p (afterBody rest s1)" by simp
    from tryReadBody_append [OF started(1), of x]
    have "tryReadBody (buffer (more x s1)) (nextMessageLength (more x s1)) = Some (bd, rest @ x)"
      by simp
    from readBody_Some [OF this] started(2) show ?thesis
      unfolding s2 more_startDecoding more_afterBody
      by (auto simp: decodePromise_def split: outcome.splits)
  qed simp_all
  show "readBody s1 = Throw e s2 \<Longrightarrow> readBody (more x s1) = Throw e (more x s2)"
  proof (cases s1 rule: readBody_cases)
    case (throws bd rest e')
    assume "readBody s1 = Throw e s2"
    with throws(3) have s2: "s2 = afterBody rest s1" "e' = e" by simp_all
    from tryReadBody_append [OF throws(1), of x]
    have "tryReadBody (buffer (more x s1)) (nextMessageLength (more x s1)) = Some (bd, rest @ x)"
      by simp
    from readBody_Some [OF this] throws(2) show ?thesis
      unfolding s2 more_afterBody by simp
  qed simp_all
qed

lemma readBody_incomplete:
  assumes "readBody s1 = Return s2"
  shows "framing s2 = framing s1" and "nextMessageLength s1 \<noteq> - 1" and "options s2 = options s1"
proof -
  have r: "s2 = setPartialMessageTimer s1
      \<and> tryReadBody (buffer s1) (nextMessageLength s1) = None"
    using assms by (cases s1 rule: readBody_cases) simp_all
  then show "framing s2 = framing s1" "options s2 = options s1" by simp_all
  from r show "nextMessageLength s1 \<noteq> - 1"
    by (auto simp: tryReadBody_def split: if_splits)
qed

lemma framing_more: "framing s = framing t \<Longrightarrow> framing (more x s) = framing (more x t)"
  by (simp add: framing_def more_def)

lemma bodyStep_cong:
  assumes "framing s = framing t" and "options s = options t"
  shows "framingResult (bodyStep s) = framingResult (bodyStep t)"
proof -
  from assms(1) have b: "buffer s = buffer t" "nextMessageLength s = nextMessageLength t"
    and d: "decoding s = decoding t" by (simp_all add: framing_def)
  from readBody_alike [OF b assms(2)]
  consider (bret) s' t' where "readBody s = Return s'" "readBody t = Return t'"
      "buffer s' = buffer t'" "nextMessageLength s' = nextMessageLength t'"
      "decoding s' = decoding s" "decoding t' = decoding t"
    | (bthr) e s' t' where "readBody s = Throw e s'" "readBody t = Throw e t'"
      "buffer s' = buffer t'" "nextMessageLength s' = nextMessageLength t'"
      "decoding s' = decoding s" "decoding t' = decoding t"
    | (bcon) p s2 t2 where "readBody s = Continue s2" "readBody t = Continue t2"
      "buffer s2 = buffer t2" "nextMessageLength s2 = nextMessageLength t2"
      "decoding s2 = decoding s @ [p]" "decoding t2 = decoding t @ [p]"
    by blast
  then show ?thesis
  proof cases
    case bret
    with d show ?thesis by (simp add: bodyStep_def framingResult_def framing_def)
  next
    case bthr
    with d show ?thesis by (simp add: bodyStep_def framingResult_def framing_def)
  next
    case bcon
    have o2: "options s2 = options t2"
      using ambient_readBody [of s] ambient_readBody [of t] bcon(1,2) assms(2)
      by (simp add: ambient_def)
    have "framing s2 = framing t2" using bcon(3-6) d by (simp add: framing_def)
    from onDataLoop_cong [OF this o2] bcon(1,2) show ?thesis by (simp add: bodyStep_def)
  qed
qed

lemma onDataLoop_more:
  "(case onDataLoop s of
      Inl (e, s') \<Rightarrow> framingResult (onDataLoop (more x s)) = Inl (e, framing (more x s'))
    | Inr s' \<Rightarrow> framingResult (onDataLoop (more x s)) = framingResult (onDataLoop (more x s')))"
proof (induction s rule: onDataLoop.induct)
  case (1 s)
  show ?case
  proof (cases "readHeaders s")
    case (Return t)
    then have "t = s" by (auto simp: readHeaders_def Let_def split: if_splits option.splits)
    with Return show ?thesis unfolding onDataLoop.simps [of s] by simp
  next
    case (Throw e s1)
    from readHeaders_more(1) [OF this, of x] Throw show ?thesis
      unfolding onDataLoop.simps [of s] onDataLoop.simps [of "more x s"]
      by (simp add: framingResult_def)
  next
    case (Continue s1)
    note h = readHeaders_more(2) [OF Continue, of x]
    show ?thesis
    proof (cases "readBody s1")
      case (Return s2)
      from readBody_incomplete [OF Return] have f: "framing s2 = framing s1"
        and n: "nextMessageLength s2 \<noteq> - 1" and o: "options s2 = options s1"
        by (simp_all add: framing_def)
      have l: "onDataLoop s = Inr s2"
        unfolding onDataLoop.simps [of s] using Continue Return by simp
      have a: "onDataLoop (more x s) = bodyStep (more x s1)"
        unfolding onDataLoop_bodyStep [of "more x s"] using h by simp
      have "readHeaders (more x s2) = Continue (more x s2)"
        using n by (simp add: readHeaders_def more_def)
      then have b: "onDataLoop (more x s2) = bodyStep (more x s2)"
        unfolding onDataLoop_bodyStep [of "more x s2"] by simp
      have "framingResult (bodyStep (more x s1)) = framingResult (bodyStep (more x s2))"
        using framing_more [OF f [symmetric], of x] o by (intro bodyStep_cong) simp_all
      then show ?thesis using l a b by simp
    next
      case (Throw e s2)
      have l: "onDataLoop s = Inl (e, s2)"
        unfolding onDataLoop.simps [of s] using Continue Throw by simp
      have a: "onDataLoop (more x s) = Inl (e, more x s2)"
        unfolding onDataLoop.simps [of "more x s"] using h readBody_more(2) [OF Throw, of x] by simp
      show ?thesis unfolding l a by (simp add: framingResult_def)
    next
      case r: (Continue s2)
      have l: "onDataLoop s = onDataLoop s2"
        unfolding onDataLoop.simps [of s] using Continue r by simp
      have a: "onDataLoop (more x s) = onDataLoop (more x s2)"
        unfolding onDataLoop.simps [of "more x s"] using h readBody_more(1) [OF r, of x] by simp
      show ?thesis unfolding l a by (rule "1.IH" [OF Continue r])
    qed
  qed
qed

lemma more_more: "more y (more x s) = more (x @ y) s"
  by (simp add: more_def)

lemma onData_more: "onData x s = onDataLoop (more x s)"
  by (simp add: onData_def more_def)

lemma onData_split_throw:
  assumes "onData c1 s = Inl (e, s')"
  shows "\<exists>t. onData (c1 @ c2) s = Inl (e, t)"
proof -
  from onDataLoop_more [where s = "more c1 s" and x = c2] assms
  have "framingResult (onDataLoop (more (c1 @ c2) s)) = Inl (e, framing (more c2 s'))"
    by (simp add: onData_more more_more)
  then show ?thesis
    by (cases "onDataLoop (more (c1 @ c2) s)") (auto simp: framingResult_def onData_more)
qed

lemma onData_split:
  assumes "onData c1 s = Inr s1"
  shows "framingResult (onData (c1 @ c2) s) = framingResult (onData c2 s1)"
  using onDataLoop_more [where s = "more c1 s" and x = c2] assms
  by (simp add: onData_more more_more)

lemma feed_concat:
  assumes "chunks \<noteq> []" and "onData (concat chunks) s = Inr t"
  shows "\<exists>t'. feed chunks s = Inr t' \<and> framing t' = framing t"
  using assms
proof (induction chunks arbitrary: s t)
  case Nil
  then show ?case by simp
next
  case (Cons c cs)
  show ?case
  proof (cases "cs = []")
    case True
    with Cons.prems show ?thesis by simp
  next
    case False
    from Cons.prems(2) have whole: "onData (c @ concat cs) s = Inr t" by simp
    obtain s1 where s1: "onData c s = Inr s1"
    proof (cases "onData c s")
      case (Inl thrown)
      then obtain e s' where "onData c s = Inl (e, s')" by (cases thrown) auto
      from onData_split_throw [OF this, of "concat cs"] whole show ?thesis by auto
    next
      case (Inr s1)
      then show ?thesis by (rule that)
    qed
    from onData_split [OF s1, of "concat cs"] whole
    obtain t1 where t1: "onData (concat cs) s1 = Inr t1" "framing t1 = framing t"
      by (cases "onData (concat cs) s1") (auto simp: framingResult_def)
    from Cons.IH [OF False t1(1)] obtain t' where "feed cs s1 = Inr t'" "framing t' = framing t1"
      by blast
    with s1 t1 show ?thesis by simp
  qed
qed

text \<open>Runs of a reader on which \<open>listen\<close> has registered one set of handlers.\<close>

lemma run_Cons: "run (a # acts) s = run acts (step a s)"
  by (simp add: run_def)

lemma run_Nil: "run [] s = s"
  by (simp add: run_def)

lemma run_append: "run (as @ bs) s = run bs (run as s)"
  by (simp add: run_def)

lemma step_Data_one: "listeners s = Suc 0 \<Longrightarrow> step (Data c) s = escaped (onData c s)"
  by (cases "onData c s") simp_all

lemma listeners_onData: "onData c s = Inr s1 \<Longrightarrow> listeners s1 = listeners s"
  using ambient_onData [of c s] by (simp add: ambient_def)

lemma run_feed:
  "feed chunks s = Inr t \<Longrightarrow> listeners s = Suc 0 \<Longrightarrow> run (map Data chunks) s = t"
proof (induction chunks arbitrary: s)
  case Nil
  then show ?case by (simp add: run_def)
next
  case (Cons c cs)
  then obtain s1 where s1: "onData c s = Inr s1" "feed cs s1 = Inr t"
    by (auto split: sum.splits)
  from listeners_onData [OF s1(1)] Cons.prems(2) have l: "listeners s1 = Suc 0" by simp
  have "step (Data c) s = s1"
    using step_Data_one [OF Cons.prems(2), of c] s1(1) by (simp add: escaped_def)
  with Cons.IH [OF s1(2) l] show ?case by (simp add: run_Cons)
qed

text \<open>A buffer that starts with complete frames.\<close>

lemma decodePromise_Some:
  "decodePromise opts b = Some p \<Longrightarrow>
     (\<exists>e. contentDecoded opts b = Rejects e \<and> p = Inl e)
     \<or> (\<exists>v. contentDecoded opts b = Resolves v \<and> p = Inr v)"
  by (auto simp: decodePromise_def split: outcome.splits)

lemma readBody_complete:
  assumes "tryReadBody (buffer s) (nextMessageLength s) = Some (b, rest)"
    and "decodePromise (options s) b = Some p"
  shows "readBody s = Continue (startDecoding p (afterBody rest s))"
  using readBody_Some [OF assms(1)] decodePromise_Some [OF assms(2)] by auto

lemma onDataLoop_frames:
  assumes "list_all wellFramed fs" and "nextMessageLength s = - 1"
    and "buffer s = stream fs @ tail"
    and "map (\<lambda>f. decodePromise (options s) (body f)) fs = map Some ps"
  shows "framingResult (onDataLoop s)
       = framingResult (onDataLoop (s\<lparr>buffer := tail, decoding := decoding s @ ps\<rparr>))"
  using assms
proof (induction fs arbitrary: s ps)
  case Nil
  then have "framing s = framing (s\<lparr>buffer := tail, decoding := decoding s @ ps\<rparr>)"
    by (simp add: framing_def stream_def)
  then show ?case by (rule onDataLoop_cong) simp
next
  case (Cons f fs)
  let ?n = "int (length (body f))"
  let ?rest = "stream fs @ tail"
  have wf: "wellFramed f" and wfs: "list_all wellFramed fs" using Cons.prems(1) by simp_all
  from Cons.prems(4) obtain p ps' where ps: "ps = p # ps'"
      and p: "decodePromise (options s) (body f) = Some p"
      and ps': "map (\<lambda>f. decodePromise (options s) (body f)) fs = map Some ps'"
    by (cases ps) auto
  have buf: "buffer s = encodeFrame f @ ?rest" using Cons.prems(3) by (simp add: stream_def)
  obtain hs where hs: "tryReadHeaders (buffer s) = Some (hs, body f @ ?rest)"
      "hs ''Content-Length'' = Some (showNat (length (body f)))"
    using tryReadHeaders_frame [OF wf, of ?rest] buf by auto
  let ?s1 = "s\<lparr>buffer := body f @ ?rest, nextMessageLength := ?n\<rparr>"
  have h: "readHeaders s = Continue ?s1"
    using hs Cons.prems(2) by (simp add: readHeaders_def showNat_nonempty parseInt_showNat)
  let ?s2 = "startDecoding p (afterBody ?rest ?s1)"
  have b: "readBody ?s1 = Continue ?s2"
    using tryReadBody_exact [of "body f" ?rest] p by (intro readBody_complete) simp_all
  have l: "onDataLoop s = onDataLoop ?s2"
    unfolding onDataLoop.simps [of s] using h b by simp
  have n2: "nextMessageLength ?s2 = - 1" and b2: "buffer ?s2 = stream fs @ tail"
    and d2: "decoding ?s2 = decoding s @ [p]" and o2: "options ?s2 = options s"
    by simp_all
  have ps2: "map (\<lambda>f. decodePromise (options ?s2) (body f)) fs = map Some ps'"
    unfolding o2 by (rule ps')
  have "framing (?s2\<lparr>buffer := tail, decoding := decoding ?s2 @ ps'\<rparr>)
      = framing (s\<lparr>buffer := tail, decoding := decoding s @ ps\<rparr>)"
    unfolding d2 using n2 Cons.prems(2) ps by (simp add: framing_def)
  moreover have "options (?s2\<lparr>buffer := tail, decoding := decoding ?s2 @ ps'\<rparr>)
      = options (s\<lparr>buffer := tail, decoding := decoding s @ ps\<rparr>)"
    using o2 by simp
  ultimately have "framingResult (onDataLoop (?s2\<lparr>buffer := tail, decoding := decoding ?s2 @ ps'\<rparr>))
      = framingResult (onDataLoop (s\<lparr>buffer := tail, decoding := decoding s @ ps\<rparr>))"
    by (rule onDataLoop_cong)
  with Cons.IH [OF wfs n2 b2 ps2] l show ?case by simp
qed

lemma onDataLoop_idle:
  "nextMessageLength s = - 1 \<Longrightarrow> buffer s = [] \<Longrightarrow> onDataLoop s = Inr s"
  unfolding onDataLoop.simps [of s] by (simp add: readHeaders_def tryReadHeaders_def)

lemma onData_stream:
  assumes "list_all wellFramed fs" and "nextMessageLength s = - 1" and "buffer s = rest"
    and "rest @ chunk = stream fs"
    and "map (\<lambda>f. decodePromise (options s) (body f)) fs = map Some ps"
  shows "framingResult (onData chunk s) = Inr ([], - 1, decoding s @ ps)"
proof -
  let ?t = "(more chunk s)\<lparr>buffer := [], decoding := decoding (more chunk s) @ ps\<rparr>"
  have "framingResult (onDataLoop (more chunk s)) = framingResult (onDataLoop ?t)"
    using assms by (intro onDataLoop_frames [where fs = fs]) (simp_all add: more_def)
  moreover have "onDataLoop ?t = Inr ?t"
    using assms(2) by (intro onDataLoop_idle) (simp_all add: more_def)
  ultimately show ?thesis
    using assms(2) by (simp add: onData_more framingResult_def framing_def more_def)
qed

lemma encodeFrame_nonempty: "encodeFrame f \<noteq> []"
  by (simp add: encodeFrame_def)

lemma stream_empty: "stream fs = [] \<Longrightarrow> fs = []"
  using encodeFrame_nonempty by (cases fs) (auto simp: stream_def)

text \<open>Feeding the bytes of well-framed messages in chunks.\<close>

lemma run_chunks:
  assumes wf: "list_all wellFramed fs" and chunks: "concat chunks = stream fs"
    and idle: "nextMessageLength s = - 1" "buffer s = []" and one: "listeners s = Suc 0"
    and ps: "map (\<lambda>f. decodePromise (options s) (body f)) fs = map Some ps"
  shows "framing (run (map Data chunks) s) = ([], - 1, decoding s @ ps)
       \<and> ambient (run (map Data chunks) s) = ambient s"
proof (cases "chunks = []")
  case True
  with chunks stream_empty [of fs] idle ps show ?thesis
    by (simp add: run_def framing_def)
next
  case False
  have "[] @ concat chunks = stream fs" using chunks by simp
  from onData_stream [OF wf idle this ps] obtain t where t: "onData (concat chunks) s = Inr t"
      "framing t = ([], - 1, decoding s @ ps)"
    by (cases "onData (concat chunks) s") (auto simp: framingResult_def)
  from feed_concat [OF False t(1)] obtain t' where t': "feed chunks s = Inr t'"
      "framing t' = framing t" by blast
  from run_feed [OF t'(1) one] ambient_feed [OF t'(1)] t'(2) t(2) show ?thesis by simp
qed


subsection \<open>Decodings that settle while data arrives\<close>

lemma deliverOutcome_settled:
  "deliverOutcome p s =
     s\<lparr>delivered := delivered s @ fst (settled (options s) (errorEmitter s) p),
       unhandled := unhandled s @ snd (settled (options s) (errorEmitter s) p)\<rparr>"
  by (auto simp: deliverOutcome_def settled_def rejected_def fireError_def errorEvents_def
      split: sum.splits outcome.splits)

lemma settle_effect:
  assumes "i < length (decoding s)"
  shows "decoding (settle i s) = take i (decoding s) @ drop (Suc i) (decoding s)"
    and "delivered (settle i s)
           = delivered s @ fst (settled (options s) (errorEmitter s) (decoding s ! i))"
    and "unhandled (settle i s)
           = unhandled s @ snd (settled (options s) (errorEmitter s) (decoding s ! i))"
    and "buffer (settle i s) = buffer s" and "nextMessageLength (settle i s) = nextMessageLength s"
    and "options (settle i s) = options s" and "errorEmitter (settle i s) = errorEmitter s"
    and "uncaught (settle i s) = uncaught s" and "listeners (settle i s) = listeners s"
  using assms by (simp_all add: settle_def deliverOutcome_settled)

lemma settle_idle: "\<not> i < length (decoding s) \<Longrightarrow> settle i s = s"
  by (simp add: settle_def)

lemma step_Data_ambient:
  assumes "listeners s = Suc 0"
  shows "options (step (Data c) s) = options s" and "errorEmitter (step (Data c) s) = errorEmitter s"
    and "delivered (step (Data c) s) = delivered s" and "unhandled (step (Data c) s) = unhandled s"
    and "listeners (step (Data c) s) = listeners s"
  using ambient_onData [of c s] unfolding step_Data_one [OF assms]
  by (cases "onData c s"; auto simp: escaped_def ambient_def)+

lemma step_Data_alike:
  assumes "buffer s = buffer t" and "nextMessageLength s = nextMessageLength t"
    and "options s = options t" and "listeners s = Suc 0" and "listeners t = Suc 0"
  shows "\<exists>X W. buffer (step (Data c) s) = buffer (step (Data c) t)
           \<and> nextMessageLength (step (Data c) s) = nextMessageLength (step (Data c) t)
           \<and> decoding (step (Data c) s) = decoding s @ X
           \<and> decoding (step (Data c) t) = decoding t @ X
           \<and> uncaught (step (Data c) s) = uncaught s @ W
           \<and> uncaught (step (Data c) t) = uncaught t @ W"
proof -
  let ?s = "s\<lparr>buffer := buffer s @ c\<rparr>" and ?t = "t\<lparr>buffer := buffer t @ c\<rparr>"
  have "buffer ?s = buffer ?t" "nextMessageLength ?s = nextMessageLength ?t" "options ?s = options ?t"
    using assms(1-3) by simp_all
  from onDataLoop_alike [OF this]
  obtain X s' t' where r: "(\<exists>e. onDataLoop ?s = Inl (e, s') \<and> onDataLoop ?t = Inl (e, t'))
        \<or> (onDataLoop ?s = Inr s' \<and> onDataLoop ?t = Inr t')"
    and f: "buffer s' = buffer t'" "nextMessageLength s' = nextMessageLength t'"
      "decoding s' = decoding s @ X" "decoding t' = decoding t @ X"
    by auto
  from r show ?thesis
  proof
    assume "\<exists>e. onDataLoop ?s = Inl (e, s') \<and> onDataLoop ?t = Inl (e, t')"
    then obtain e where e: "onData c s = Inl (e, s')" "onData c t = Inl (e, t')"
      by (auto simp: onData_def)
    from ambient_onData [of c s] ambient_onData [of c t] e
    have u: "uncaught s' = uncaught s" "uncaught t' = uncaught t" by (simp_all add: ambient_def)
    have "uncaught (step (Data c) s) = uncaught s @ [e]" "uncaught (step (Data c) t) = uncaught t @ [e]"
      unfolding step_Data_one [OF assms(4)] step_Data_one [OF assms(5)]
      using e u by (simp_all add: escaped_def)
    moreover have "buffer (step (Data c) s) = buffer s'" "buffer (step (Data c) t) = buffer t'"
      "nextMessageLength (step (Data c) s) = nextMessageLength s'"
      "nextMessageLength (step (Data c) t) = nextMessageLength t'"
      "decoding (step (Data c) s) = decoding s'" "decoding (step (Data c) t) = decoding t'"
      unfolding step_Data_one [OF assms(4)] step_Data_one [OF assms(5)]
      using e by (simp_all add: escaped_def)
    ultimately show ?thesis using f by auto
  next
    assume "onDataLoop ?s = Inr s' \<and> onDataLoop ?t = Inr t'"
    then have e: "onData c s = Inr s'" "onData c t = Inr t'" by (simp_all add: onData_def)
    from ambient_onData [of c s] ambient_onData [of c t] e
    have u: "uncaught s' = uncaught s" "uncaught t' = uncaught t" by (simp_all add: ambient_def)
    have "step (Data c) s = s'" "step (Data c) t = t'"
      unfolding step_Data_one [OF assms(4)] step_Data_one [OF assms(5)]
      using e by (simp_all add: escaped_def)
    with f u show ?thesis by auto
  qed
qed

lemma chunksOf_simps [simp]:
  "chunksOf [] = []"
  "chunksOf (Data c # acts) = c # chunksOf acts"
  "chunksOf (Settle i # acts) = chunksOf acts"
  by (simp_all add: chunksOf_def)

lemma mset_settle:
  "i < length xs \<Longrightarrow> mset (xs ! i # take i xs @ drop (Suc i) xs) = mset xs"
  using id_take_nth_drop [of i xs] by (metis mset.simps(2) mset_append union_mset_add_mset_right)

text \<open>
  A run in which data arrives and decodings settle, next to the run that only delivers
  the data: both read the same frames, and what the first has delivered are the outcomes
  of the decodings settled, \<open>dn\<close>, in the order in which they settled.
\<close>

lemma interleave:
  fixes s t :: "'m reader"
  assumes "list_all dataOrSettle acts"
    and "buffer s = buffer t" and "nextMessageLength s = nextMessageLength t"
    and "options s = options t" and "listeners s = Suc 0" and "listeners t = Suc 0"
  shows "\<exists>dn X W.
      buffer (run acts s) = buffer (run (map Data (chunksOf acts)) t)
    \<and> nextMessageLength (run acts s) = nextMessageLength (run (map Data (chunksOf acts)) t)
    \<and> decoding (run (map Data (chunksOf acts)) t) = decoding t @ X
    \<and> mset (dn @ decoding (run acts s)) = mset (decoding s @ X)
    \<and> (list_all inStartOrder acts \<longrightarrow> dn @ decoding (run acts s) = decoding s @ X)
    \<and> delivered (run acts s)
        = delivered s @ concat (map (\<lambda>p. fst (settled (options s) (errorEmitter s) p)) dn)
    \<and> unhandled (run acts s)
        = unhandled s @ concat (map (\<lambda>p. snd (settled (options s) (errorEmitter s) p)) dn)
    \<and> uncaught (run acts s) = uncaught s @ W
    \<and> uncaught (run (map Data (chunksOf acts)) t) = uncaught t @ W"
  using assms
proof (induction acts arbitrary: s t)
  case Nil
  then show ?case by (simp add: run_Nil)
next
  case (Cons a acts)
  from Cons.prems(1) have rest: "list_all dataOrSettle acts" and a: "dataOrSettle a" by simp_all
  from a consider (data) c where "a = Data c" | (settle) i where "a = Settle i"
    by (cases a) (simp_all add: dataOrSettle_def)
  then show ?case
  proof cases
    case data
    let ?s1 = "step (Data c) s" and ?t1 = "step (Data c) t"
    from step_Data_alike [OF Cons.prems(2-6), of c]
    obtain X1 W1 where st: "buffer ?s1 = buffer ?t1" "nextMessageLength ?s1 = nextMessageLength ?t1"
        "decoding ?s1 = decoding s @ X1" "decoding ?t1 = decoding t @ X1"
        "uncaught ?s1 = uncaught s @ W1" "uncaught ?t1 = uncaught t @ W1"
      by blast
    note as = step_Data_ambient [OF Cons.prems(5), of c]
    note at = step_Data_ambient [OF Cons.prems(6), of c]
    have o1: "options ?s1 = options ?t1" using as(1) at(1) Cons.prems(4) by simp
    have l1: "listeners ?s1 = Suc 0" "listeners ?t1 = Suc 0"
      using as(5) at(5) Cons.prems(5,6) by simp_all
    from Cons.IH [OF rest st(1,2) o1 l1]
    obtain dn X W where ih:
        "buffer (run acts ?s1) = buffer (run (map Data (chunksOf acts)) ?t1)"
        "nextMessageLength (run acts ?s1) = nextMessageLength (run (map Data (chunksOf acts)) ?t1)"
        "decoding (run (map Data (chunksOf acts)) ?t1) = decoding ?t1 @ X"
        "mset (dn @ decoding (run acts ?s1)) = mset (decoding ?s1 @ X)"
        "list_all inStartOrder acts \<longrightarrow> dn @ decoding (run acts ?s1) = decoding ?s1 @ X"
        "delivered (run acts ?s1)
           = delivered ?s1 @ concat (map (\<lambda>p. fst (settled (options ?s1) (errorEmitter ?s1) p)) dn)"
        "unhandled (run acts ?s1)
           = unhandled ?s1 @ concat (map (\<lambda>p. snd (settled (options ?s1) (errorEmitter ?s1) p)) dn)"
        "uncaught (run acts ?s1) = uncaught ?s1 @ W"
        "uncaught (run (map Data (chunksOf acts)) ?t1) = uncaught ?t1 @ W"
      by blast
    have r: "run (a # acts) s = run acts ?s1"
      "run (map Data (chunksOf (a # acts))) t = run (map Data (chunksOf acts)) ?t1"
      using data by (simp_all add: run_Cons)
    have "decoding (run (map Data (chunksOf (a # acts))) t) = decoding t @ (X1 @ X)"
      unfolding r using ih(3) st(4) by simp
    moreover have "mset (dn @ decoding (run (a # acts) s)) = mset (decoding s @ (X1 @ X))"
      unfolding r using ih(4) st(3) by simp
    moreover have "list_all inStartOrder (a # acts) \<longrightarrow>
        dn @ decoding (run (a # acts) s) = decoding s @ (X1 @ X)"
      unfolding r using ih(5) st(3) by simp
    moreover have "uncaught (run (a # acts) s) = uncaught s @ (W1 @ W)"
      "uncaught (run (map Data (chunksOf (a # acts))) t) = uncaught t @ (W1 @ W)"
      unfolding r using ih(8,9) st(5,6) by simp_all
    moreover have "delivered (run (a # acts) s)
        = delivered s @ concat (map (\<lambda>p. fst (settled (options s) (errorEmitter s) p)) dn)"
      "unhandled (run (a # acts) s)
        = unhandled s @ concat (map (\<lambda>p. snd (settled (options s) (errorEmitter s) p)) dn)"
      unfolding r using ih(6,7) as(1-4) by simp_all
    moreover have "buffer (run (a # acts) s) = buffer (run (map Data (chunksOf (a # acts))) t)"
      "nextMessageLength (run (a # acts) s)
         = nextMessageLength (run (map Data (chunksOf (a # acts))) t)"
      unfolding r using ih(1,2) by simp_all
    ultimately show ?thesis by blast
  next
    case settle
    have r: "run (a # acts) s = run acts (settle i s)"
      "run (map Data (chunksOf (a # acts))) t = run (map Data (chunksOf acts)) t"
      using settle by (simp_all add: run_Cons)
    show ?thesis
    proof (cases "i < length (decoding s)")
      case False
      have o: "list_all inStartOrder (a # acts) \<longrightarrow> list_all inStartOrder acts" by simp
      from Cons.IH [OF rest Cons.prems(2-6)] o show ?thesis
        unfolding r settle_idle [OF False] by blast
    next
      case True
      let ?s1 = "settle i s"
      let ?p = "decoding s ! i"
      note e = settle_effect [OF True]
      have p1: "buffer ?s1 = buffer t" "nextMessageLength ?s1 = nextMessageLength t"
        "options ?s1 = options t" "listeners ?s1 = Suc 0"
        using e(4,5,6,9) Cons.prems(2-5) by simp_all
      from Cons.IH [OF rest p1 Cons.prems(6)]
      obtain dn X W where ih:
          "buffer (run acts ?s1) = buffer (run (map Data (chunksOf acts)) t)"
          "nextMessageLength (run acts ?s1) = nextMessageLength (run (map Data (chunksOf acts)) t)"
          "decoding (run (map Data (chunksOf acts)) t) = decoding t @ X"
          "mset (dn @ decoding (run acts ?s1)) = mset (decoding ?s1 @ X)"
          "list_all inStartOrder acts \<longrightarrow> dn @ decoding (run acts ?s1) = decoding ?s1 @ X"
          "delivered (run acts ?s1)
             = delivered ?s1 @ concat (map (\<lambda>p. fst (settled (options ?s1) (errorEmitter ?s1) p)) dn)"
          "unhandled (run acts ?s1)
             = unhandled ?s1 @ concat (map (\<lambda>p. snd (settled (options ?s1) (errorEmitter ?s1) p)) dn)"
          "uncaught (run acts ?s1) = uncaught ?s1 @ W"
          "uncaught (run (map Data (chunksOf acts)) t) = uncaught t @ W"
        by blast
      have m: "mset ((?p # dn) @ decoding (run (a # acts) s)) = mset (decoding s @ X)"
      proof -
        have "mset ((?p # dn) @ decoding (run acts ?s1))
            = add_mset ?p (mset (decoding ?s1 @ X))"
          using ih(4) by simp
        also have "\<dots> = mset ((?p # take i (decoding s) @ drop (Suc i) (decoding s)) @ X)"
          unfolding e(1) by simp
        also have "\<dots> = mset (decoding s @ X)"
          using mset_settle [OF True] by (metis mset_append)
        finally show ?thesis unfolding r .
      qed
      have ord: "list_all inStartOrder (a # acts) \<longrightarrow>
          (?p # dn) @ decoding (run (a # acts) s) = decoding s @ X"
      proof
        assume io: "list_all inStartOrder (a # acts)"
        then have i0: "i = 0" and "list_all inStartOrder acts"
          using settle by (simp_all add: inStartOrder_def)
        with ih(5) have "dn @ decoding (run acts ?s1) = decoding ?s1 @ X" by simp
        moreover have "decoding s = ?p # decoding ?s1"
        proof -
          have "decoding ?s1 = tl (decoding s)" using e(1) i0 by (simp add: drop_Suc)
          moreover have "?p = hd (decoding s)" "decoding s \<noteq> []"
            using True i0 by (simp_all add: hd_conv_nth)
          ultimately show ?thesis by simp
        qed
        ultimately show "(?p # dn) @ decoding (run (a # acts) s) = decoding s @ X"
          unfolding r by simp
      qed
      have "delivered (run (a # acts) s)
          = delivered s @ concat (map (\<lambda>p. fst (settled (options s) (errorEmitter s) p)) (?p # dn))"
        "unhandled (run (a # acts) s)
          = unhandled s @ concat (map (\<lambda>p. snd (settled (options s) (errorEmitter s) p)) (?p # dn))"
        unfolding r using ih(6,7) e(2,3,6,7) by simp_all
      moreover have "uncaught (run (a # acts) s) = uncaught s @ W"
        "uncaught (run (map Data (chunksOf (a # acts))) t) = uncaught t @ W"
        unfolding r using ih(8,9) e(8) by simp_all
      moreover have "buffer (run (a # acts) s) = buffer (run (map Data (chunksOf (a # acts))) t)"
        "nextMessageLength (run (a # acts) s)
           = nextMessageLength (run (map Data (chunksOf (a # acts))) t)"
        "decoding (run (map Data (chunksOf (a # acts))) t) = decoding t @ X"
        unfolding r using ih(1,2,3) by simp_all
      ultimately show ?thesis using m ord by blast
    qed
  qed
qed

text \<open>The outcomes of decodings that end in an event.\<close>

lemma chainEvent_settled:
  assumes "chainEvent opts b = Some ev"
    and "\<not> isDisposed em \<or> (\<exists>m. ev = Callback m)"
  shows "\<exists>p. decodePromise opts b = Some p \<and> settled opts em p = ([ev], [])"
  using assms
  by (auto simp: chainEvent_def decodeBody_def decodePromise_def settled_def errorEvents_def
      split: outcome.splits sum.splits)

lemma chainEvents_settled:
  assumes "map (\<lambda>f. chainEvent opts (body f)) fs = map Some evs"
    and "\<not> isDisposed em \<or> list_all (\<lambda>ev. \<exists>m. ev = Callback m) evs"
  shows "\<exists>ps. map (\<lambda>f. decodePromise opts (body f)) fs = map Some ps
           \<and> map (settled opts em) ps = map (\<lambda>ev. ([ev], [])) evs"
  using assms
proof (induction fs arbitrary: evs)
  case Nil
  then show ?case by simp
next
  case (Cons f fs)
  from Cons.prems(1) obtain ev evs' where evs: "evs = ev # evs'"
      and ev: "chainEvent opts (body f) = Some ev"
      and evs': "map (\<lambda>f. chainEvent opts (body f)) fs = map Some evs'"
    by (cases evs) auto
  from Cons.prems(2) evs have c: "\<not> isDisposed em \<or> (\<exists>m. ev = Callback m)"
      and cs: "\<not> isDisposed em \<or> list_all (\<lambda>ev. \<exists>m. ev = Callback m) evs'"
    by auto
  from chainEvent_settled [OF ev c] obtain p where p: "decodePromise opts (body f) = Some p"
      "settled opts em p = ([ev], [])" by blast
  from Cons.IH [OF evs' cs] obtain ps where ps: "map (\<lambda>f. decodePromise opts (body f)) fs = map Some ps"
      "map (settled opts em) ps = map (\<lambda>ev. ([ev], [])) evs'" by blast
  have "map (\<lambda>f. decodePromise opts (body f)) (f # fs) = map Some (p # ps)"
    "map (settled opts em) (p # ps) = map (\<lambda>ev. ([ev], [])) evs"
    using p ps evs by simp_all
  then show ?case by blast
qed

lemma settled_events:
  assumes "map (settled opts em) ps = map (\<lambda>ev. ([ev], [])) evs"
  shows "concat (map (\<lambda>p. fst (settled opts em p)) ps) = evs"
    and "\<forall>p \<in> set ps. snd (settled opts em p) = []"
  using assms
proof (induction ps arbitrary: evs)
  case Nil
  {
    case 1
    then show ?case by simp
  next
    case 2
    then show ?case by simp
  }
next
  case (Cons p ps)
  {
    case 1
    then obtain ev evs' where "evs = ev # evs'" "settled opts em p = ([ev], [])"
        "map (settled opts em) ps = map (\<lambda>ev. ([ev], [])) evs'"
      by (cases evs) auto
    with Cons.IH(1) [of evs'] show ?case by simp
  next
    case 2
    then obtain ev evs' where "evs = ev # evs'" "settled opts em p = ([ev], [])"
        "map (settled opts em) ps = map (\<lambda>ev. ([ev], [])) evs'"
      by (cases evs) auto
    with Cons.IH(2) [of evs'] show ?case by simp
  }
qed

lemma mset_concat_map:
  "mset xs = mset ys \<Longrightarrow> mset (concat (map f xs)) = mset (concat (map f ys))"
proof -
  have "mset (concat (map f zs)) = (\<Sum>z\<in>#mset zs. mset (f z))" for zs
    by (induction zs) simp_all
  then show "mset xs = mset ys \<Longrightarrow> ?thesis" by simp
qed

text \<open>
  The bytes of well-framed messages arrive in any chunks while the decodings settle in any
  order, each ending in an event: when all have settled, exactly these events have been
  delivered, in the order of the messages when the decodings settle in the order in which
  they were started.
\<close>

lemma run_settled:
  fixes s :: "'m reader"
  assumes wf: "list_all wellFramed fs" and acts: "list_all dataOrSettle acts"
    and chunks: "concat (chunksOf acts) = stream fs"
    and idle: "nextMessageLength s = - 1" "buffer s = []" and none: "decoding s = []"
    and one: "listeners s = Suc 0"
    and ps: "map (\<lambda>f. decodePromise (options s) (body f)) fs = map Some ps"
    and evs: "map (settled (options s) (errorEmitter s)) ps = map (\<lambda>ev. ([ev], [])) evs"
    and fin: "decoding (run acts s) = []"
  shows "buffer (run acts s) = []" and "nextMessageLength (run acts s) = - 1"
    and "uncaught (run acts s) = uncaught s" and "unhandled (run acts s) = unhandled s"
    and "mset (delivered (run acts s)) = mset (delivered s) + mset evs"
    and "list_all inStartOrder acts \<Longrightarrow> delivered (run acts s) = delivered s @ evs"
    and "decoding (run (map Data (chunksOf acts)) s) = ps"
proof -
  let ?F = "\<lambda>p. fst (settled (options s) (errorEmitter s) p)"
  let ?U = "\<lambda>p. snd (settled (options s) (errorEmitter s) p)"
  let ?t = "run (map Data (chunksOf acts)) s"
  from interleave [OF acts refl refl refl one one]
  obtain dn X W where i:
      "buffer (run acts s) = buffer ?t"
      "nextMessageLength (run acts s) = nextMessageLength ?t"
      "decoding ?t = decoding s @ X"
      "mset (dn @ decoding (run acts s)) = mset (decoding s @ X)"
      "list_all inStartOrder acts \<longrightarrow> dn @ decoding (run acts s) = decoding s @ X"
      "delivered (run acts s) = delivered s @ concat (map ?F dn)"
      "unhandled (run acts s) = unhandled s @ concat (map ?U dn)"
      "uncaught (run acts s) = uncaught s @ W"
      "uncaught ?t = uncaught s @ W"
    by blast
  from run_chunks [OF wf chunks idle one ps] none
  have t: "buffer ?t = []" "nextMessageLength ?t = - 1" "decoding ?t = ps" "uncaught ?t = uncaught s"
    by (simp_all add: framing_def ambient_def)
  from t(3) i(3) none have X: "X = ps" by simp
  from t(4) i(9) have W: "W = []" by simp
  from i(4) fin none X have m: "mset dn = mset ps" by simp
  note se = settled_events [OF evs]
  show "buffer (run acts s) = []" "nextMessageLength (run acts s) = - 1"
    using i(1,2) t(1,2) by simp_all
  show "uncaught (run acts s) = uncaught s" using i(8) W by simp
  show "decoding ?t = ps" by (rule t(3))
  have "set dn = set ps" using m by (rule mset_eq_setD)
  with se(2) have "concat (map ?U dn) = []" by simp
  with i(7) show "unhandled (run acts s) = unhandled s" by simp
  from mset_concat_map [OF m, of ?F] se(1) have "mset (concat (map ?F dn)) = mset evs" by simp
  with i(6) show "mset (delivered (run acts s)) = mset (delivered s) + mset evs" by simp
  show "delivered (run acts s) = delivered s @ evs" if "list_all inStartOrder acts"
  proof -
    from i(5) that fin none X have "dn = ps" by simp
    with i(6) se(1) show ?thesis by simp
  qed
qed


subsection \<open>Framing of well-framed messages\<close>

lemma sampleReader_fields:
  "nextMessageLength sampleReader = - 1" "buffer sampleReader = []" "decoding sampleReader = []"
  "delivered sampleReader = []" "uncaught sampleReader = []"
  "\<not> isDisposed (errorEmitter sampleReader)"
  "options sampleReader = fromOptions sampleDecoder Undefined"
  "timers sampleReader = []" "partialMessageTimeout sampleReader = 10000"
  "listeners sampleReader = 1" "unhandled sampleReader = []"
  by (simp_all add: sampleReader_def listen_def newReader_def newEmitter_def)

lemma sample_decodeBody:
  "decodeBody (fromOptions sampleDecoder Undefined) b =
     (if b = [] then Rejects (Rejection (Some ''Unexpected end of input'')) else Resolves b)"
  by (simp add: decodeBody_def contentDecoded_def fromOptions_def sampleDecoder_def)

lemma sample_decodePromise: "decodePromise (fromOptions sampleDecoder Undefined) b = Some (Inr b)"
  by (simp add: decodePromise_def contentDecoded_def fromOptions_def)

lemma decodeBody_chainEvent:
  "map (\<lambda>f. decodeBody opts (body f)) fs = map Resolves ms \<Longrightarrow>
   map (\<lambda>f. chainEvent opts (body f)) fs = map Some (map Callback ms)"
proof (induction fs arbitrary: ms)
  case Nil
  then show ?case by simp
next
  case (Cons f fs)
  then obtain m ms' where "ms = m # ms'" "decodeBody opts (body f) = Resolves m"
      "map (\<lambda>f. decodeBody opts (body f)) fs = map Resolves ms'"
    by (cases ms) auto
  with Cons.IH [of ms'] show ?case by (simp add: chainEvent_def)
qed

text \<open>
  Claim C1, as amended. The bytes of \<open>N\<close> well-framed messages are delivered to a reader
  that is between messages, after one \<open>listen\<close>, cut into chunks at arbitrary places
  (inside a header or a body as well), while the decodings started settle at any time and
  in any order; every body decodes to a message. Then nothing is thrown, the decodings of
  exactly the \<open>N\<close> bodies are started, in the original order, and once all of them have
  settled the callback has been called with exactly the \<open>N\<close> messages: in the original
  order when the decodings settle in the order in which they were started.
\<close>

theorem framing_robustness:
  fixes s :: "'m reader"
  assumes "list_all wellFramed fs" and "list_all dataOrSettle acts"
    and "concat (chunksOf acts) = stream fs"
    and "nextMessageLength s = - 1" and "buffer s = []" and "decoding s = []"
    and "listeners s = 1"
    and "map (\<lambda>f. decodeBody (options s) (body f)) fs = map Resolves ms"
    and "decoding (run acts s) = []"
  shows "map Some (decoding (run (map Data (chunksOf acts)) s))
           = map (\<lambda>f. decodePromise (options s) (body f)) fs
       \<and> uncaught (run acts s) = uncaught s
       \<and> unhandled (run acts s) = unhandled s
       \<and> mset (delivered (run acts s)) = mset (delivered s) + mset (map Callback ms)
       \<and> length ms = length fs
       \<and> (list_all inStartOrder acts \<longrightarrow> delivered (run acts s) = delivered s @ map Callback ms)"
proof -
  have cb: "\<not> isDisposed (errorEmitter s)
      \<or> list_all (\<lambda>ev. \<exists>m. ev = Callback m) (map Callback ms :: 'm event list)"
    by (simp add: list_all_iff)
  from chainEvents_settled [OF decodeBody_chainEvent [OF assms(8)] cb]
  obtain ps where ps: "map (\<lambda>f. decodePromise (options s) (body f)) fs = map Some ps"
      "map (settled (options s) (errorEmitter s)) ps = map (\<lambda>ev. ([ev], [])) (map Callback ms)"
    by blast
  have one: "listeners s = Suc 0" using assms(7) by simp
  note r = run_settled [OF assms(1-6) one ps assms(9)]
  have "length ms = length fs"
    using arg_cong [OF assms(8), of length] by simp
  with r(3,4,5,6,7) ps(1) show ?thesis by simp
qed

theorem framing_robustness_witness:
  "list_all wellFramed [\<lparr>contentType = None, body = ''hi''\<rparr>, \<lparr>contentType = Some ''x'', body = ''abc''\<rparr>]
   \<and> concat (chunksOf [Data ''Content-Le'', Data (''ngth: 2'' @ CRLF @ CRLF @ ''h''), Settle 0,
        Data (''iContent-Length: 3'' @ CRLF @ ''Content-Type: x'' @ CRLF @ CRLF @ ''ab''), Settle 0,
        Data ''c'', Settle 0])
       = stream [\<lparr>contentType = None, body = ''hi''\<rparr>, \<lparr>contentType = Some ''x'', body = ''abc''\<rparr>]
   \<and> decoding (run [Data ''Content-Le'', Data (''ngth: 2'' @ CRLF @ CRLF @ ''h''), Settle 0,
        Data (''iContent-Length: 3'' @ CRLF @ ''Content-Type: x'' @ CRLF @ CRLF @ ''ab''), Settle 0,
        Data ''c'', Settle 0] sampleReader) = []
   \<and> delivered (run [Data ''Content-Le'', Data (''ngth: 2'' @ CRLF @ CRLF @ ''h''), Settle 0,
        Data (''iContent-Length: 3'' @ CRLF @ ''Content-Type: x'' @ CRLF @ CRLF @ ''ab''), Settle 0,
        Data ''c'', Settle 0] sampleReader)
       = [Callback ''hi'', Callback ''abc'']"
proof -
  let ?fs = "[\<lparr>contentType = None, body = ''hi''\<rparr>, \<lparr>contentType = Some ''x'', body = ''abc''\<rparr>]"
  let ?acts = "[Data ''Content-Le'', Data (''ngth: 2'' @ CRLF @ CRLF @ ''h''), Settle 0,
        Data (''iContent-Length: 3'' @ CRLF @ ''Content-Type: x'' @ CRLF @ CRLF @ ''ab''), Settle 0,
        Data ''c'', Settle 0]"
  have wf: "list_all wellFramed ?fs" by (simp add: wellFramed_def CR_def LF_def)
  have a: "list_all dataOrSettle ?acts" by (simp add: dataOrSettle_def)
  have o: "list_all inStartOrder ?acts" by (simp add: inStartOrder_def)
  have c: "concat (chunksOf ?acts) = stream ?fs"
    by code_simp
  have d: "map (\<lambda>f. decodeBody (options sampleReader) (body f)) ?fs = map Resolves [''hi'', ''abc'']"
    by (simp add: sampleReader_fields sample_decodeBody)
  have f: "decoding (run ?acts sampleReader) = []"
    by code_simp
  from framing_robustness [OF wf a c sampleReader_fields(1,2,3,10) d f] wf c f o
  show ?thesis by (simp add: sampleReader_fields)
qed

text \<open>
  Claim C1 as stated fails: the reader starts one promise chain for each body and does
  not order them. When the decoding of the second of two messages settles before the
  decoding of the first, the callback receives the second message first.
\<close>

theorem callbacks_out_of_order_counterexample:
  "delivered (run [Data (stream [\<lparr>contentType = None, body = ''hi''\<rparr>,
                                 \<lparr>contentType = None, body = ''abc''\<rparr>]), Settle 1, Settle 0]
        sampleReader)
     = [Callback ''abc'', Callback ''hi'']
   \<and> delivered (run [Data (stream [\<lparr>contentType = None, body = ''hi''\<rparr>]),
                    Data (stream [\<lparr>contentType = None, body = ''abc''\<rparr>]), Settle 1, Settle 0]
        sampleReader)
     = [Callback ''abc'', Callback ''hi'']"
  by code_simp




subsection \<open>Framing errors\<close>

lemma onDataLoop_bad_header:
  assumes "nextMessageLength s = - 1" and "tryReadHeaders (buffer s) = Some (hs, rest)"
    and "badContentLength hs"
  shows "onDataLoop s = Inl (framingError hs, s\<lparr>buffer := rest\<rparr>)"
  unfolding onDataLoop.simps [of s] using assms
  by (auto simp: readHeaders_def badContentLength_def framingError_def split: option.splits)

text \<open>
  Claim C2, as amended: when a reader on which \<open>listen\<close> has been called once, after any
  number of well-framed messages on none of which the content decoder throws, meets a
  complete header block without \<open>Content-Length\<close>, or with a value that does not parse as a
  number, \<open>onData\<close> throws: the error leaves the stream's data handler (it is not an
  \<open>onError\<close> event), no decoding is started for the block, nothing is delivered, and the
  loop stops there, leaving the bytes after the block unread in the buffer. The reader
  does not stop for good: it is left between messages, and when the next chunk completes
  well-framed messages behind the block, it extracts them and throws nothing more.
\<close>

theorem bad_content_length_throws:
  fixes s :: "'m reader"
  assumes "list_all wellFramed fs" and "nextMessageLength s = - 1" and "buffer s = []"
    and "listeners s = 1"
    and "map (\<lambda>f. decodePromise (options s) (body f)) fs = map Some ps"
    and "tryReadHeaders block = Some (hs, rest)" and "badContentLength hs"
  shows "(\<exists>t. onData (stream fs @ block) s = Inl (framingError hs, t))
       \<and> uncaught (step (Data (stream fs @ block)) s) = uncaught s @ [framingError hs]
       \<and> decoding (step (Data (stream fs @ block)) s) = decoding s @ ps
       \<and> delivered (step (Data (stream fs @ block)) s) = delivered s
       \<and> buffer (step (Data (stream fs @ block)) s) = rest
       \<and> nextMessageLength (step (Data (stream fs @ block)) s) = - 1
       \<and> (list_all wellFramed gs \<and> rest @ chunk = stream gs
            \<and> map (\<lambda>f. decodePromise (options s) (body f)) gs = map Some qs \<longrightarrow>
          decoding (run [Data (stream fs @ block), Data chunk] s) = decoding s @ ps @ qs
          \<and> uncaught (run [Data (stream fs @ block), Data chunk] s) = uncaught s @ [framingError hs]
          \<and> delivered (run [Data (stream fs @ block), Data chunk] s) = delivered s
          \<and> buffer (run [Data (stream fs @ block), Data chunk] s) = [])"
proof -
  let ?init = "more (stream fs @ block) s"
  let ?mid = "?init\<lparr>buffer := block, decoding := decoding ?init @ ps\<rparr>"
  let ?s1 = "step (Data (stream fs @ block)) s"
  have one: "listeners s = Suc 0" using assms(4) by simp
  have "framingResult (onDataLoop ?init) = framingResult (onDataLoop ?mid)"
    using assms(1-3,5) by (intro onDataLoop_frames [where fs = fs]) simp_all
  moreover have "onDataLoop ?mid = Inl (framingError hs, ?mid\<lparr>buffer := rest\<rparr>)"
    using assms(2,6,7) by (intro onDataLoop_bad_header) simp_all
  ultimately obtain t where t: "onData (stream fs @ block) s = Inl (framingError hs, t)"
    "framing t = (rest, - 1, decoding s @ ps)"
    using assms(2)
    by (cases "onDataLoop ?init") (auto simp: framingResult_def onData_more framing_def more_def)
  from ambient_onData [of "stream fs @ block" s] t(1) have a: "ambient t = ambient s" by simp
  have s1: "?s1 = t\<lparr>uncaught := uncaught t @ [framingError hs]\<rparr>"
    unfolding step_Data_one [OF one] using t(1) by (simp add: escaped_def)
  have first: "uncaught ?s1 = uncaught s @ [framingError hs]" "decoding ?s1 = decoding s @ ps"
    "delivered ?s1 = delivered s" "buffer ?s1 = rest" "nextMessageLength ?s1 = - 1"
    "options ?s1 = options s" "listeners ?s1 = Suc 0"
    unfolding s1 using t(2) a one by (simp_all add: framing_def ambient_def)
  have "decoding (run [Data (stream fs @ block), Data chunk] s) = decoding s @ ps @ qs
      \<and> uncaught (run [Data (stream fs @ block), Data chunk] s) = uncaught s @ [framingError hs]
      \<and> delivered (run [Data (stream fs @ block), Data chunk] s) = delivered s
      \<and> buffer (run [Data (stream fs @ block), Data chunk] s) = []"
    if g: "list_all wellFramed gs" "rest @ chunk = stream gs"
      "map (\<lambda>f. decodePromise (options s) (body f)) gs = map Some qs"
  proof -
    have q: "map (\<lambda>f. decodePromise (options ?s1) (body f)) gs = map Some qs"
      unfolding first(6) by (rule g(3))
    from onData_stream [OF g(1) first(5,4) g(2) q]
    obtain u where u: "onData chunk ?s1 = Inr u" "framing u = ([], - 1, decoding ?s1 @ qs)"
      by (cases "onData chunk ?s1") (auto simp: framingResult_def)
    from ambient_onData [of chunk ?s1] u(1) have au: "ambient u = ambient ?s1" by simp
    have "run [Data (stream fs @ block), Data chunk] s = u"
      using step_Data_one [OF first(7), of chunk] u(1) by (simp add: run_def escaped_def)
    with u(2) au first show ?thesis by (simp add: framing_def ambient_def)
  qed
  with t(1) first(1-5) show ?thesis by blast
qed

theorem bad_content_length_throws_witness:
  "uncaught (step (Data (stream [\<lparr>contentType = None, body = ''hi''\<rparr>]
                   @ ''Content-Type: a'' @ CRLF @ CRLF @ ''Content-Length: 2'' @ CRLF @ CRLF @ ''y''))
            sampleReader)
     = [Error ''Header must provide a Content-Length property.'']
   \<and> decoding (step (Data (stream [\<lparr>contentType = None, body = ''hi''\<rparr>]
                   @ ''Content-Type: a'' @ CRLF @ CRLF @ ''Content-Length: 2'' @ CRLF @ CRLF @ ''y''))
            sampleReader)
     = [Inr ''hi'']
   \<and> buffer (step (Data (stream [\<lparr>contentType = None, body = ''hi''\<rparr>]
                   @ ''Content-Type: a'' @ CRLF @ CRLF @ ''Content-Length: 2'' @ CRLF @ CRLF @ ''y''))
            sampleReader)
     = ''Content-Length: 2'' @ CRLF @ CRLF @ ''y''
   \<and> decoding (run [Data (stream [\<lparr>contentType = None, body = ''hi''\<rparr>]
                   @ ''Content-Type: a'' @ CRLF @ CRLF @ ''Content-Length: 2'' @ CRLF @ CRLF @ ''y''),
                    Data ''o''] sampleReader)
     = [Inr ''hi'', Inr ''yo'']
   \<and> badContentLength [''Content-Length'' \<mapsto> ''twelve'']
   \<and> framingError [''Content-Length'' \<mapsto> ''twelve''] = Error ''Content-Length value must be a number.''"
proof -
  let ?fs = "[\<lparr>contentType = None, body = ''hi''\<rparr>]"
  let ?gs = "[\<lparr>contentType = None, body = ''yo''\<rparr>]"
  let ?rest = "''Content-Length: 2'' @ CRLF @ CRLF @ ''y''"
  have wf: "list_all wellFramed ?fs" by (simp add: wellFramed_def)
  have wg: "list_all wellFramed ?gs" by (simp add: wellFramed_def)
  have h: "tryReadHeaders (''Content-Type: a'' @ CRLF @ CRLF @ ?rest)
      = Some ([''Content-Type'' \<mapsto> ''a''], ?rest)"
    by (simp add: tryReadHeaders_def CRLF_def CR_def LF_def headersOf_def parseHeaderLine_def
        trim_def isWhiteSpace_def)
  have b: "badContentLength [''Content-Type'' \<mapsto> ''a'']" by (simp add: badContentLength_def)
  have p: "parseInt ''twelve'' = None"
    by (simp add: parseInt_def isWhiteSpace_def isRadixDigit_def digitValue_def)
  have ps: "map (\<lambda>f. decodePromise (options sampleReader) (body f)) ?fs = map Some [Inr ''hi'']"
    by (simp add: sampleReader_fields sample_decodePromise)
  have qs: "map (\<lambda>f. decodePromise (options sampleReader) (body f)) ?gs = map Some [Inr ''yo'']"
    by (simp add: sampleReader_fields sample_decodePromise)
  have g: "?rest @ ''o'' = stream ?gs"
    by code_simp
  from bad_content_length_throws [OF wf sampleReader_fields(1,2,10) ps h b,
      where gs = ?gs and chunk = "''o''" and qs = "[Inr ''yo'']"] wg qs g p
  show ?thesis
    by (simp add: sampleReader_fields framingError_def badContentLength_def)
qed

text \<open>
  Claim C2 as stated fails: the error is thrown, but it is not fatal to the reader, which
  neither closes nor stops reading. After the throw the stream's next chunk, here an
  empty one, makes the reader extract the message that followed the bad header block, and
  the callback receives it; no \<open>onError\<close> and no \<open>onClose\<close> event is delivered.
\<close>

theorem reads_on_after_framing_error_counterexample:
  "uncaught (run [Data (stream [\<lparr>contentType = None, body = ''hi''\<rparr>]
                   @ ''Content-Type: a'' @ CRLF @ CRLF @ ''Content-Length: 2'' @ CRLF @ CRLF @ ''yo'')]
            sampleReader)
     = [Error ''Header must provide a Content-Length property.'']
   \<and> delivered (run [Data (stream [\<lparr>contentType = None, body = ''hi''\<rparr>]
                   @ ''Content-Type: a'' @ CRLF @ CRLF @ ''Content-Length: 2'' @ CRLF @ CRLF @ ''yo''),
                    Settle 0, Data [], Settle 0] sampleReader)
     = [Callback ''hi'', Callback ''yo'']
   \<and> uncaught (run [Data (stream [\<lparr>contentType = None, body = ''hi''\<rparr>]
                   @ ''Content-Type: a'' @ CRLF @ CRLF @ ''Content-Length: 2'' @ CRLF @ CRLF @ ''yo''),
                    Settle 0, Data [], Settle 0] sampleReader)
     = [Error ''Header must provide a Content-Length property.'']"
  by code_simp


subsection \<open>The partial-message timeout\<close>

lemma partialMessages_append [simp]:
  "partialMessages (xs @ ys) = partialMessages xs @ partialMessages ys"
  by (simp add: partialMessages_def)

lemma partialMessages_simps [simp]:
  "partialMessages [] = []"
  "partialMessages (OnPartialMessage info # evs) = info # partialMessages evs"
  "partialMessages (Callback m # evs) = partialMessages evs"
  "partialMessages (OnError e # evs) = partialMessages evs"
  "partialMessages (OnClose # evs) = partialMessages evs"
  by (simp_all add: partialMessages_def)

lemma partialMessages_settled [simp]: "partialMessages (fst (settled opts em p)) = []"
  by (auto simp: settled_def errorEvents_def split: sum.splits outcome.splits)

lemma escaped_fields [simp]:
  "timers (escaped r) = timers (resultState r)"
  "partialMessageTimeout (escaped r) = partialMessageTimeout (resultState r)"
  "partialMessageTimer (escaped r) = partialMessageTimer (resultState r)"
  "delivered (escaped r) = delivered (resultState r)"
  "messageToken (escaped r) = messageToken (resultState r)"
  by (cases r; auto simp: escaped_def)+

lemma fire_fields [simp]:
  "timers (resultState (fireError e s)) = timers s"
  "partialMessageTimeout (resultState (fireError e s)) = partialMessageTimeout s"
  "partialMessageTimer (resultState (fireError e s)) = partialMessageTimer s"
  "messageToken (resultState (fireError e s)) = messageToken s"
  "partialMessages (delivered (resultState (fireError e s))) = partialMessages (delivered s)"
  "timers (fireClose s) = timers s"
  "partialMessageTimeout (fireClose s) = partialMessageTimeout s"
  "partialMessageTimer (fireClose s) = partialMessageTimer s"
  "messageToken (fireClose s) = messageToken s"
  "partialMessages (delivered (fireClose s)) = partialMessages (delivered s)"
  by (auto simp: fireError_def fireClose_def split: sum.splits)

lemma settle_fields [simp]:
  "timers (settle i s) = timers s"
  "partialMessageTimeout (settle i s) = partialMessageTimeout s"
  "partialMessageTimer (settle i s) = partialMessageTimer s"
  "messageToken (settle i s) = messageToken s"
  "partialMessages (delivered (settle i s)) = partialMessages (delivered s)"
  by (simp_all add: settle_def deliverOutcome_settled)

lemma timersOff_setPartialMessageTimer:
  "timersOff s \<Longrightarrow> timersOff (setPartialMessageTimer s)"
  "timersOff s \<Longrightarrow> timersOff (clearPartialMessageTimer s)"
  by (auto simp: timersOff_def setPartialMessageTimer_def clearPartialMessageTimer_def
      clearTimeout_def Let_def split: option.splits)

lemma timersOff_readHeaders: "timersOff s \<Longrightarrow> timersOff (stateOf (readHeaders s))"
  by (auto simp: readHeaders_def timersOff_def Let_def split: if_splits option.splits)

lemma timersOff_afterBody: "timersOff s \<Longrightarrow> timersOff (afterBody r s)"
  by (auto simp: timersOff_def afterBody_def clearPartialMessageTimer_def clearTimeout_def
      split: option.splits)

lemma timersOff_startDecoding: "timersOff s \<Longrightarrow> timersOff (startDecoding p s)"
  by (simp add: timersOff_def startDecoding_def)

lemma timersOff_readBody: "timersOff s \<Longrightarrow> timersOff (stateOf (readBody s))"
  by (cases s rule: readBody_cases)
    (simp_all add: timersOff_setPartialMessageTimer timersOff_afterBody timersOff_startDecoding)

lemma timersOff_onData:
  assumes "timersOff s"
  shows "timersOff (resultState (onData c s))"
    and "partialMessages (delivered (resultState (onData c s))) = partialMessages (delivered s)"
proof -
  have "timersOff (s\<lparr>buffer := buffer s @ c\<rparr>)" using assms by (simp add: timersOff_def)
  then show "timersOff (resultState (onData c s))"
    unfolding onData_def
    by (rule onDataLoop_invariant) (simp_all add: timersOff_readHeaders timersOff_readBody)
  show "partialMessages (delivered (resultState (onData c s))) = partialMessages (delivered s)"
    using ambient_onData [of c s] by (simp add: ambient_def)
qed

lemma timersOff_escaped: "timersOff (escaped r) = timersOff (resultState r)"
  by (simp add: timersOff_def)

lemma timersOff_D: "timersOff s \<Longrightarrow> timers s = [] \<and> partialMessageTimeout s \<le> 0"
  by (simp add: timersOff_def)

lemma timersOff_step:
  assumes "timersOff s" and "keepsTimeoutOff a"
  shows "timersOff (step a s) \<and> partialMessages (delivered (step a s)) = partialMessages (delivered s)"
proof (cases a)
  case (Data chunk)
  let ?P = "\<lambda>u. timersOff u \<and> partialMessages (delivered u) = partialMessages (delivered s)"
  have "?P (resultState (emit (listeners s) (onData chunk) s))"
    by (rule emit_invariant [where P = ?P]) (simp_all add: assms(1) timersOff_onData)
  with Data show ?thesis by (simp add: timersOff_escaped)
next
  case (StreamError e)
  let ?P = "\<lambda>u. timersOff u \<and> partialMessages (delivered u) = partialMessages (delivered s)"
  have "?P (resultState (emit (listeners s) (fireError e) s))"
    by (rule emit_invariant [where P = ?P]) (simp_all add: timersOff_D [OF assms(1)] timersOff_def)
  with StreamError show ?thesis by (simp add: timersOff_escaped)
next
  case StreamClose
  let ?P = "\<lambda>u. timersOff u \<and> partialMessages (delivered u) = partialMessages (delivered s)"
  have "?P (resultState (emit (listeners s) (\<lambda>s'. Inr (fireClose s')) s))"
    by (rule emit_invariant [where P = ?P]) (simp_all add: timersOff_D [OF assms(1)] timersOff_def)
  with StreamClose show ?thesis by (simp add: timersOff_escaped)
next
  case (Elapse d)
  have "nextDue (clock s + d) (timers s) = None"
    using assms(1) by (simp add: timersOff_def nextDue_def)
  then have "runTimers (clock s + d) s = s\<lparr>clock := max (clock s) (clock s + d)\<rparr>"
    by (subst runTimers.simps) simp
  then show ?thesis using Elapse assms(1) by (simp add: elapse_def timersOff_def)
next
  case (SetPartialMessageTimeout timeout)
  then show ?thesis
    using assms by (simp add: setPartialMessageTimeout_def timersOff_def keepsTimeoutOff_def)
next
  case Listen
  then show ?thesis using assms(1) by (simp add: listen_def timersOff_def)
next
  case Dispose
  then show ?thesis using assms(1) by (simp add: dispose_def timersOff_def)
next
  case (Settle i)
  then show ?thesis using assms(1) by (simp add: timersOff_def)
qed

lemma timersOff_run:
  "timersOff s \<Longrightarrow> list_all keepsTimeoutOff acts \<Longrightarrow>
   timersOff (run acts s) \<and> partialMessages (delivered (run acts s)) = partialMessages (delivered s)"
proof (induction acts arbitrary: s)
  case Nil
  then show ?case by (simp add: run_def)
next
  case (Cons a acts)
  from Cons.prems have a: "keepsTimeoutOff a" and acts: "list_all keepsTimeoutOff acts" by simp_all
  from timersOff_step [OF Cons.prems(1) a] Cons.IH [OF _ acts, of "step a s"]
  show ?case by (simp add: run_Cons)
qed

text \<open>
  Claim C4, as amended: the timeout of a new reader is 10000 ms; and from any state with no
  timer pending and a timeout that is not positive, no partial-message event is delivered
  and no timer is created, whatever follows (data, time passing, stream errors and close,
  \<open>listen\<close>, \<open>dispose\<close>, decodings settling, the setter called with non-positive values).
\<close>

theorem no_partial_message_while_timeout_off:
  fixes applicationJson :: "'m ContentTypeDecoder" and s :: "'m reader"
  shows "partialMessageTimeout (newReader applicationJson arg now) = 10000
   \<and> (timers s = [] \<and> partialMessageTimeout s \<le> 0 \<and> list_all keepsTimeoutOff acts \<longrightarrow>
        partialMessages (delivered (run acts s)) = partialMessages (delivered s)
        \<and> timers (run acts s) = [])"
  using timersOff_run [of s acts] by (simp add: newReader_def timersOff_def)

theorem no_partial_message_while_timeout_off_witness:
  "timers (setPartialMessageTimeout 0 sampleReader) = []
   \<and> partialMessageTimeout (setPartialMessageTimeout 0 sampleReader) \<le> 0
   \<and> list_all keepsTimeoutOff [Data (''Content-Length: 5'' @ CRLF @ CRLF), Elapse 50000,
        SetPartialMessageTimeout (- 1), Data ''hello'', Settle 0]
   \<and> partialMessages (delivered (run [Data (''Content-Length: 5'' @ CRLF @ CRLF), Elapse 50000,
        SetPartialMessageTimeout (- 1), Data ''hello'', Settle 0]
        (setPartialMessageTimeout 0 sampleReader))) = []"
proof -
  have a: "timers (setPartialMessageTimeout 0 sampleReader) = []"
    and b: "partialMessageTimeout (setPartialMessageTimeout 0 sampleReader) \<le> 0"
    and d: "delivered (setPartialMessageTimeout 0 sampleReader) = []"
    by (simp_all add: setPartialMessageTimeout_def sampleReader_fields)
  have c: "list_all keepsTimeoutOff [Data (''Content-Length: 5'' @ CRLF @ CRLF), Elapse 50000,
        SetPartialMessageTimeout (- 1), Data ''hello'', Settle 0]"
    by (simp add: keepsTimeoutOff_def)
  from no_partial_message_while_timeout_off [of sampleDecoder Undefined 0
      "setPartialMessageTimeout 0 sampleReader"
      "[Data (''Content-Length: 5'' @ CRLF @ CRLF), Elapse 50000,
        SetPartialMessageTimeout (- 1), Data ''hello'', Settle 0]"] a b c d
  show ?thesis by simp
qed

text \<open>
  Claim C4 as stated fails when the setter is called while a timer is pending: the setter
  only stores the value. A body is awaited under the default timeout, the timeout is set to
  0, and the timer armed before still fires its event 10000 ms later.
\<close>

theorem timeout_off_late_counterexample:
  "partialMessageTimeout (run [Data (''Content-Length: 5'' @ CRLF @ CRLF),
       SetPartialMessageTimeout 0] sampleReader) = 0
   \<and> nextMessageLength (run [Data (''Content-Length: 5'' @ CRLF @ CRLF),
       SetPartialMessageTimeout 0] sampleReader) = 5
   \<and> partialMessages (delivered (run [Data (''Content-Length: 5'' @ CRLF @ CRLF),
       SetPartialMessageTimeout 0, Elapse 10000] sampleReader)) = [PartialMessageInfo 0 10000]"
  by code_simp

subsection \<open>The timer of an incomplete body\<close>

lemma handled_clear:
  "handled s \<Longrightarrow> timers (clearPartialMessageTimer s) = []
     \<and> partialMessageTimer (clearPartialMessageTimer s) = None"
proof (cases "partialMessageTimer s")
  case None
  then show "handled s \<Longrightarrow> ?thesis"
    by (cases "timers s") (auto simp: handled_def clearPartialMessageTimer_def)
next
  case (Some h)
  assume "handled s"
  then have "filter (\<lambda>t. tid t \<noteq> h) (timers s) = []"
    using Some by (auto simp: handled_def list_all_iff filter_empty_conv)
  with Some show ?thesis by (simp add: clearPartialMessageTimer_def clearTimeout_def)
qed

lemma armed_setPartialMessageTimer:
  assumes "handled s" and "0 < partialMessageTimeout s"
  shows "armed (clock s + partialMessageTimeout s) (setPartialMessageTimer s)"
proof -
  let ?c = "clearPartialMessageTimer s"
  from handled_clear [OF assms(1)] have c: "timers ?c = []" by simp
  have k: "partialMessageTimeout ?c = partialMessageTimeout s" "clock ?c = clock s"
    "messageToken ?c = messageToken s"
    using ambient_timer(1) [of s] by (simp_all add: ambient_def)
  show ?thesis
    using assms(2) c k by (simp add: armed_def setPartialMessageTimer_def Let_def setTimeout_def)
qed

lemma handled_readHeaders: "handled s \<Longrightarrow> handled (stateOf (readHeaders s))"
  by (auto simp: readHeaders_def handled_def Let_def split: if_splits option.splits)

lemma handled_afterBody: "handled s \<Longrightarrow> handled (afterBody r s)"
proof -
  assume "handled s"
  then have "handled (s\<lparr>buffer := r\<rparr>)" by (simp add: handled_def)
  from handled_clear [OF this] show ?thesis by (simp add: handled_def afterBody_def)
qed

lemma handled_startDecoding: "handled s \<Longrightarrow> handled (startDecoding p s)"
  by (simp add: handled_def startDecoding_def)

lemma handled_readBody:
  assumes "readBody s = Continue s2" and "handled s"
  shows "handled s2"
  using assms by (cases s rule: readBody_cases) (auto simp: handled_afterBody handled_startDecoding)

lemma armed_onDataLoop:
  assumes "handled s" and "0 < partialMessageTimeout s" and "onDataLoop s = Inr s'"
    and "nextMessageLength s' \<noteq> - 1"
  shows "armed (clock s + partialMessageTimeout s) s'"
  using assms
proof (induction s rule: onDataLoop.induct)
  case (1 s)
  show ?case
  proof (cases "readHeaders s")
    case (Throw e t)
    with "1.prems"(3) show ?thesis unfolding onDataLoop.simps [of s] by simp
  next
    case (Return t)
    with "1.prems"(3) have "s' = t" unfolding onDataLoop.simps [of s] by simp
    moreover from Return have "t = s" "nextMessageLength s = - 1"
      by (auto simp: readHeaders_def Let_def split: if_splits option.splits)
    ultimately show ?thesis using "1.prems"(4) by simp
  next
    case (Continue s1)
    have h1: "handled s1" using handled_readHeaders [OF "1.prems"(1)] Continue by simp
    from ambient_readHeaders [of s] Continue
    have k1: "partialMessageTimeout s1 = partialMessageTimeout s" "clock s1 = clock s"
      by (simp_all add: ambient_def)
    show ?thesis
    proof (cases "readBody s1")
      case (Return s2)
      with Continue "1.prems"(3) have "s' = s2" unfolding onDataLoop.simps [of s] by simp
      moreover from Return have "s2 = setPartialMessageTimer s1"
        by (cases s1 rule: readBody_cases) simp_all
      ultimately show ?thesis
        using armed_setPartialMessageTimer [OF h1] k1 "1.prems"(2) by simp
    next
      case (Throw e t)
      with Continue "1.prems"(3) show ?thesis unfolding onDataLoop.simps [of s] by simp
    next
      case r: (Continue s2)
      have l: "onDataLoop s = onDataLoop s2"
        unfolding onDataLoop.simps [of s] using Continue r by simp
      from ambient_readBody [of s1] r
      have k2: "partialMessageTimeout s2 = partialMessageTimeout s" "clock s2 = clock s"
        using k1 by (simp_all add: ambient_def)
      from "1.IH" [OF Continue r handled_readBody [OF r h1]] "1.prems" l k2
      show ?thesis by simp
    qed
  qed
qed

lemma armed_fireTimer:
  assumes "armed D s" and "0 < partialMessageTimeout s" and "clock s \<le> D"
    and "\<not> isDisposed (partialMessageEmitter s)"
  obtains t where "timers s = [t]"
    and "armed (D + partialMessageTimeout s) (fireTimer t s)"
    and "clock (fireTimer t s) = D"
    and "delivered (fireTimer t s) = delivered s
           @ [OnPartialMessage (PartialMessageInfo (messageToken s) (partialMessageTimeout s))]"
    and "partialMessageTimeout (fireTimer t s) = partialMessageTimeout s"
    and "messageToken (fireTimer t s) = messageToken s"
    and "partialMessageEmitter (fireTimer t s) = partialMessageEmitter s"
    and "framing (fireTimer t s) = framing s"
proof -
  from assms(1) obtain t where t: "timers s = [t]" "partialMessageTimer s = Some (tid t)"
      "due t = D" "tok t = messageToken s" "tmo t = partialMessageTimeout s"
    by (auto simp: armed_def split: list.splits)
  have m: "max (clock s) D = D" using assms(3) by simp
  show ?thesis
  proof (rule that [OF t(1)])
    show "armed (D + partialMessageTimeout s) (fireTimer t s)"
      using t m assms(2,4)
      by (simp add: armed_def fireTimer_def timerCallback_def firePartialMessage_def
          setPartialMessageTimer_def clearPartialMessageTimer_def setTimeout_def Let_def)
    show "clock (fireTimer t s) = D"
      using t m assms(2,4)
      by (simp add: fireTimer_def timerCallback_def firePartialMessage_def
          setPartialMessageTimer_def clearPartialMessageTimer_def setTimeout_def Let_def)
    show "delivered (fireTimer t s) = delivered s
           @ [OnPartialMessage (PartialMessageInfo (messageToken s) (partialMessageTimeout s))]"
      using t m assms(2,4)
      by (simp add: fireTimer_def timerCallback_def firePartialMessage_def
          setPartialMessageTimer_def clearPartialMessageTimer_def setTimeout_def Let_def)
    show "partialMessageTimeout (fireTimer t s) = partialMessageTimeout s"
      "messageToken (fireTimer t s) = messageToken s"
      "partialMessageEmitter (fireTimer t s) = partialMessageEmitter s"
      "framing (fireTimer t s) = framing s"
      using t m assms(2,4)
      by (simp_all add: fireTimer_def timerCallback_def firePartialMessage_def framing_def
          setPartialMessageTimer_def clearPartialMessageTimer_def setTimeout_def Let_def)
  qed
qed

lemma div_shift: "0 < (T::int) \<Longrightarrow> (x - T) div T = x div T - 1"
  by (metis add.commute diff_add_cancel div_add_self1 less_irrefl add_diff_cancel_right')

text \<open>
  With timers that fire exactly when they are due, the reader's timer fires every
  \<open>partialMessageTimeout\<close> ms as long as no data arrives.
\<close>

lemma runTimers_armed:
  fixes s :: "'m reader"
  assumes "armed D s" and "0 < partialMessageTimeout s" and "clock s \<le> D"
    and "\<not> isDisposed (partialMessageEmitter s)"
  shows "delivered (runTimers target s) = delivered s
           @ replicate (if D \<le> target then nat ((target - D) div partialMessageTimeout s) + 1 else 0)
               (OnPartialMessage (PartialMessageInfo (messageToken s) (partialMessageTimeout s)))
       \<and> framing (runTimers target s) = framing s"
  using assms
proof (induction target s arbitrary: D rule: runTimers.induct)
  case (1 target s)
  let ?T = "partialMessageTimeout s"
  from armed_fireTimer [OF "1.prems"] obtain t where t: "timers s = [t]"
    and a: "armed (D + ?T) (fireTimer t s)"
    and c: "clock (fireTimer t s) = D"
    and d: "delivered (fireTimer t s) = delivered s
           @ [OnPartialMessage (PartialMessageInfo (messageToken s) ?T)]"
    and k: "partialMessageTimeout (fireTimer t s) = ?T" "messageToken (fireTimer t s) = messageToken s"
      "partialMessageEmitter (fireTimer t s) = partialMessageEmitter s"
    and f: "framing (fireTimer t s) = framing s"
    by metis
  from "1.prems"(1) t have dt: "due t = D" by (simp add: armed_def)
  show ?case
  proof (cases "D \<le> target")
    case False
    then have "nextDue target (timers s) = None" using t dt by (simp add: nextDue_def)
    then have "runTimers target s = s\<lparr>clock := max (clock s) target\<rparr>"
      by (subst runTimers.simps) simp
    with False show ?thesis by (simp add: framing_def)
  next
    case True
    then have n: "nextDue target (timers s) = Some t" using t dt by (simp add: nextDue_def)
    then have r: "runTimers target s = runTimers target (fireTimer t s)"
      by (subst runTimers.simps) simp
    have T: "0 < ?T" by (rule "1.prems"(2))
    from "1.IH" [OF n a] k c T "1.prems"(4)
    have IH: "delivered (runTimers target (fireTimer t s)) = delivered (fireTimer t s)
           @ replicate (if D + ?T \<le> target then nat ((target - (D + ?T)) div ?T) + 1 else 0)
               (OnPartialMessage (PartialMessageInfo (messageToken s) ?T))"
      and IHf: "framing (runTimers target (fireTimer t s)) = framing (fireTimer t s)"
      by simp_all
    have count: "(if D + ?T \<le> target then nat ((target - (D + ?T)) div ?T) + 1 else 0)
        = nat ((target - D) div ?T)"
    proof (cases "D + ?T \<le> target")
      case True
      have "(target - (D + ?T)) div ?T = (target - D) div ?T - 1"
        using div_shift [OF T, of "target - D"] by (simp add: algebra_simps)
      moreover have "0 < (target - D) div ?T"
        using True T by (simp add: pos_imp_zdiv_pos_iff)
      ultimately show ?thesis using True by simp
    next
      case False
      with True T have "(target - D) div ?T = 0" by (simp add: div_pos_pos_trivial)
      with False show ?thesis by simp
    qed
    show ?thesis
      unfolding r IH IHf count d f using True
      by (simp add: replicate_append_same)
  qed
qed

text \<open>
  Claim C6, as amended: let the timeout \<open>T\<close> be positive, the partial-message emitter live,
  and every pending timer be the one whose handle the reader holds. When \<open>onData\<close> returns
  with a body incomplete and no further data arrives for \<open>d\<close> ms, where \<open>d\<close> is \<open>2T\<close> at
  least, then at least one partial-message event is delivered in that time, the message
  still being incomplete, and every event of that time carries the reader's token and the
  waiting time \<open>T\<close>, the same value each time.
\<close>

theorem partial_message_events_constant_waiting_time:
  fixes s0 :: "'m reader"
  assumes "0 < partialMessageTimeout s0" and "\<not> isDisposed (partialMessageEmitter s0)"
    and "list_all (\<lambda>t. partialMessageTimer s0 = Some (tid t)) (timers s0)"
    and "onData chunk s0 = Inr s" and "nextMessageLength s \<noteq> - 1"
    and "2 * partialMessageTimeout s0 \<le> d"
  shows "(\<exists>n. 1 \<le> n \<and> delivered (elapse d s) = delivered s
             @ replicate n
                 (OnPartialMessage (PartialMessageInfo (messageToken s0) (partialMessageTimeout s0))))
       \<and> nextMessageLength (elapse d s) = nextMessageLength s
       \<and> decoding (elapse d s) = decoding s"
proof -
  let ?T = "partialMessageTimeout s0"
  let ?init = "s0\<lparr>buffer := buffer s0 @ chunk\<rparr>"
  have h: "handled ?init" using assms(3) by (simp add: handled_def)
  have l: "onDataLoop ?init = Inr s" using assms(4) by (simp add: onData_def)
  from armed_onDataLoop [OF h _ l assms(5)] assms(1)
  have a: "armed (clock s0 + ?T) s" by simp
  from ambient_onData [of chunk s0] assms(4)
  have k: "partialMessageTimeout s = ?T" "clock s = clock s0" "messageToken s = messageToken s0"
    "partialMessageEmitter s = partialMessageEmitter s0"
    by (simp_all add: ambient_def)
  have a': "armed (clock s + ?T) s" using a k by simp
  have le: "clock s + ?T \<le> clock s + d" using assms(1,6) by simp
  have T': "0 < partialMessageTimeout s" using k assms(1) by simp
  have c': "clock s \<le> clock s + ?T" using assms(1) by simp
  have e': "\<not> isDisposed (partialMessageEmitter s)" using k assms(2) by simp
  let ?n = "nat ((clock s + d - (clock s + ?T)) div ?T) + 1"
  from runTimers_armed [OF a' T' c' e', of "clock s + d", unfolded k(1,3)] le
  have "delivered (elapse d s) = delivered s
      @ replicate ?n (OnPartialMessage (PartialMessageInfo (messageToken s0) ?T))"
    and "framing (elapse d s) = framing s"
    by (simp_all add: elapse_def)
  moreover have "1 \<le> ?n" by simp
  ultimately show ?thesis by (auto simp: framing_def)
qed

theorem partial_message_events_constant_waiting_time_witness:
  "0 < partialMessageTimeout (setPartialMessageTimeout 10 sampleReader)
   \<and> 2 * partialMessageTimeout (setPartialMessageTimeout 10 sampleReader) \<le> 25
   \<and> \<not> isl (onData (''Content-Length: 2'' @ CRLF @ CRLF @ ''h'') (setPartialMessageTimeout 10 sampleReader))
   \<and> (\<exists>n. 1 \<le> n \<and> delivered (elapse 25 (run [SetPartialMessageTimeout 10,
              Data (''Content-Length: 2'' @ CRLF @ CRLF @ ''h'')] sampleReader))
            = replicate n (OnPartialMessage (PartialMessageInfo 0 10)))
   \<and> nextMessageLength (elapse 25 (run [SetPartialMessageTimeout 10,
       Data (''Content-Length: 2'' @ CRLF @ CRLF @ ''h'')] sampleReader)) = 2"
proof -
  let ?init = "setPartialMessageTimeout 10 sampleReader"
  let ?chunk = "''Content-Length: 2'' @ CRLF @ CRLF @ ''h''"
  let ?fin = "run [SetPartialMessageTimeout 10, Data ?chunk] sampleReader"
  have n: "\<not> isl (onData ?chunk ?init)" by code_simp
  then obtain t where r: "onData ?chunk ?init = Inr t" by (cases "onData ?chunk ?init") auto
  have l: "listeners ?init = Suc 0"
    by (simp add: setPartialMessageTimeout_def sampleReader_fields)
  have t: "t = ?fin"
    using step_Data_one [OF l, of ?chunk] r by (simp add: run_def escaped_def)
  have f: "nextMessageLength ?fin = 2" "delivered ?fin = []" by code_simp+
  have p: "0 < partialMessageTimeout ?init" "\<not> isDisposed (partialMessageEmitter ?init)"
    "list_all (\<lambda>t. partialMessageTimer ?init = Some (tid t)) (timers ?init)"
    "messageToken ?init = 0" "partialMessageTimeout ?init = 10"
    by (simp_all add: setPartialMessageTimeout_def sampleReader_def listen_def newReader_def
        newEmitter_def)
  have d: "2 * partialMessageTimeout ?init \<le> 25" using p(5) by simp
  from partial_message_events_constant_waiting_time [OF p(1,2,3) r _ d] f p(4,5) n d
  show ?thesis unfolding t by simp
qed

text \<open>
  Claim C6 as stated fails twice. With \<open>T = 10\<close> and a body that arrives after 25 ms of
  silence two events are delivered and both carry the waiting time 10: the values do not
  increase. And every chunk that leaves the body incomplete arms the timer anew, so a body
  that trickles in every 9 ms and is complete after 27 ms, later than \<open>2T\<close>, causes no
  event at all.
\<close>

theorem waiting_time_not_increasing_counterexample:
  "map waitingTime (partialMessages (delivered (run [SetPartialMessageTimeout 10,
       Data (''Content-Length: 2'' @ CRLF @ CRLF), Elapse 25, Data ''hi''] sampleReader))) = [10, 10]
   \<and> \<not> sorted_wrt (<) (map waitingTime (partialMessages (delivered (run [SetPartialMessageTimeout 10,
       Data (''Content-Length: 2'' @ CRLF @ CRLF), Elapse 25, Data ''hi''] sampleReader))))
   \<and> partialMessages (delivered (run [SetPartialMessageTimeout 10,
       Data (''Content-Length: 2'' @ CRLF @ CRLF), Elapse 9, Data ''h'', Elapse 9, Data [],
       Elapse 9, Data ''i''] sampleReader)) = []
   \<and> clock (run [SetPartialMessageTimeout 10,
       Data (''Content-Length: 2'' @ CRLF @ CRLF), Elapse 9, Data ''h'', Elapse 9, Data [],
       Elapse 9, Data ''i''] sampleReader) = 27"
  by code_simp

subsection \<open>dispose\<close>

text \<open>
  Claim C8 (dispose releases every emitter of the reader). \<open>dispose\<close> disposes the error
  and the close emitter and leaves the partial-message emitter, and the pending timer, as
  they are: after \<open>dispose\<close> the close event is no longer delivered, but the timer of an
  awaited body keeps firing partial-message events to the listeners.
\<close>

theorem dispose_leaves_partialMessageEmitter:
  "isDisposed (errorEmitter (dispose s)) \<and> isDisposed (closeEmitter (dispose s))
   \<and> partialMessageEmitter (dispose s) = partialMessageEmitter s
   \<and> timers (dispose s) = timers s
   \<and> delivered (run [SetPartialMessageTimeout 10, Data (''Content-Length: 2'' @ CRLF @ CRLF),
         Dispose, StreamClose, Elapse 25] sampleReader)
       = [OnPartialMessage (PartialMessageInfo 0 10), OnPartialMessage (PartialMessageInfo 0 10)]"
proof -
  have "delivered (run [SetPartialMessageTimeout 10, Data (''Content-Length: 2'' @ CRLF @ CRLF),
         Dispose, StreamClose, Elapse 25] sampleReader)
       = [OnPartialMessage (PartialMessageInfo 0 10), OnPartialMessage (PartialMessageInfo 0 10)]"
    by code_simp
  then show ?thesis by (simp add: dispose_def disposeEmitter_def)
qed

subsection \<open>messageToken\<close>

lemma messageToken_setPartialMessageTimer:
  "messageToken (setPartialMessageTimer s) = messageToken s"
  using ambient_timer(2) [of s] by (simp add: ambient_def)

lemma messageToken_fireTimer: "messageToken (fireTimer t s) = messageToken s"
  by (simp add: fireTimer_def timerCallback_def Let_def messageToken_setPartialMessageTimer
      firePartialMessage_def)

lemma messageToken_runTimers: "messageToken (runTimers target s) = messageToken s"
proof (induction target s rule: runTimers.induct)
  case (1 target s)
  show ?case
  proof (cases "nextDue target (timers s)")
    case None
    then show ?thesis by (subst runTimers.simps) simp
  next
    case (Some t)
    with "1.IH" [OF Some] show ?thesis
      by (subst runTimers.simps) (simp add: messageToken_fireTimer)
  qed
qed

lemma messageToken_onData: "messageToken (resultState (onData c s)) = messageToken s"
  using ambient_onData [of c s] by (simp add: ambient_def)

lemma messageToken_step:
  "messageToken (step a s) = (case a of Listen \<Rightarrow> 0 | _ \<Rightarrow> messageToken s)"
proof (cases a)
  case (Data chunk)
  have "messageToken (resultState (emit (listeners s) (onData chunk) s)) = messageToken s"
    by (rule emit_invariant [where P = "\<lambda>u. messageToken u = messageToken s"])
      (simp_all add: messageToken_onData)
  with Data show ?thesis by simp
next
  case (StreamError e)
  have "messageToken (resultState (emit (listeners s) (fireError e) s)) = messageToken s"
    by (rule emit_invariant [where P = "\<lambda>u. messageToken u = messageToken s"]) simp_all
  with StreamError show ?thesis by simp
next
  case StreamClose
  have "messageToken (resultState (emit (listeners s) (\<lambda>s'. Inr (fireClose s')) s)) = messageToken s"
    by (rule emit_invariant [where P = "\<lambda>u. messageToken u = messageToken s"]) simp_all
  with StreamClose show ?thesis by simp
qed (simp_all add: elapse_def messageToken_runTimers setPartialMessageTimeout_def listen_def
      dispose_def)

text \<open>
  Claim C5 (a new message sequence number when body accumulation restarts; no stale timer
  fires against a later message). No action but \<open>listen\<close>, which resets it to 0, changes
  \<open>messageToken\<close>: the reader never assigns a new number, so the events of two successive
  messages carry the same token 0 and the comparison in the timer's callback always
  succeeds. And \<open>listen\<close> forgets the handle of a pending timer without clearing it: the
  timer armed for a message awaited before \<open>listen\<close> fires its event after a later message
  has been completed (which the two sets of handlers then registered deliver twice).
\<close>

theorem messageToken_never_advances:
  "messageToken (step a s) = (case a of Listen \<Rightarrow> 0 | _ \<Rightarrow> messageToken s)
   \<and> delivered (run [SetPartialMessageTimeout 10,
         Data (''Content-Length: 2'' @ CRLF @ CRLF), Elapse 10, Data ''hi'', Settle 0,
         Data (''Content-Length: 3'' @ CRLF @ CRLF), Elapse 10, Data ''abc'', Settle 0] sampleReader)
       = [OnPartialMessage (PartialMessageInfo 0 10), Callback ''hi'',
          OnPartialMessage (PartialMessageInfo 0 10), Callback ''abc'']
   \<and> delivered (run [Data (''Content-Length: 5'' @ CRLF @ CRLF), Listen,
         Data (''Content-Length: 2'' @ CRLF @ CRLF @ ''hi''), Settle 0, Settle 0, Elapse 10000]
         sampleReader)
       = [Callback ''hi'', Callback ''hi'', OnPartialMessage (PartialMessageInfo 0 10000)]"
proof -
  have "delivered (run [SetPartialMessageTimeout 10,
         Data (''Content-Length: 2'' @ CRLF @ CRLF), Elapse 10, Data ''hi'', Settle 0,
         Data (''Content-Length: 3'' @ CRLF @ CRLF), Elapse 10, Data ''abc'', Settle 0] sampleReader)
       = [OnPartialMessage (PartialMessageInfo 0 10), Callback ''hi'',
          OnPartialMessage (PartialMessageInfo 0 10), Callback ''abc'']"
    by code_simp
  moreover have "delivered (run [Data (''Content-Length: 5'' @ CRLF @ CRLF), Listen,
         Data (''Content-Length: 2'' @ CRLF @ CRLF @ ''hi''), Settle 0, Settle 0, Elapse 10000]
         sampleReader)
       = [Callback ''hi'', Callback ''hi'', OnPartialMessage (PartialMessageInfo 0 10000)]"
    by code_simp
  ultimately show ?thesis using messageToken_step [of a s] by simp
qed

subsection \<open>The content-type decoder\<close>

lemma contentTypeDecoder_fromOptions:
  "contentTypeDecoder (fromOptions applicationJson arg) =
     (case arg of
        Options opts \<Rightarrow>
          (case opt_contentTypeDecoder opts of Some d \<Rightarrow> d | None \<Rightarrow> applicationJson)
      | _ \<Rightarrow> applicationJson)"
  by (simp add: fromOptions_def Let_def split: options_arg.splits option.splits)

lemma onData_frame:
  assumes "wellFramed f" and "nextMessageLength s = - 1" and "buffer s = []"
  shows "\<exists>s1. options s1 = options s \<and> delivered s1 = delivered s \<and> decoding s1 = decoding s
           \<and> errorEmitter s1 = errorEmitter s \<and> uncaught s1 = uncaught s
           \<and> onData (encodeFrame f) s =
               (case contentDecoded (options s) (body f) of
                  Throws e \<Rightarrow> Inl (e, s1)
                | Rejects e \<Rightarrow> Inr (startDecoding (Inl e) s1)
                | Resolves v \<Rightarrow> Inr (startDecoding (Inr v) s1))"
proof -
  let ?init = "more (encodeFrame f) s"
  obtain hs where hs: "tryReadHeaders (buffer ?init) = Some (hs, body f @ [])"
      "hs ''Content-Length'' = Some (showNat (length (body f)))"
    using tryReadHeaders_frame [OF assms(1), of "[]"] assms(3) by auto
  let ?s1 = "?init\<lparr>buffer := body f, nextMessageLength := int (length (body f))\<rparr>"
  have h: "readHeaders ?init = Continue ?s1"
    using hs assms(2) by (simp add: readHeaders_def showNat_nonempty parseInt_showNat)
  have t: "tryReadBody (buffer ?s1) (nextMessageLength ?s1) = Some (body f, [])"
    using tryReadBody_exact [of "body f" "[]"] by simp
  let ?s2 = "afterBody [] ?s1"
  note b = readBody_Some [OF t]
  have idle: "onDataLoop (startDecoding p ?s2) = Inr (startDecoding p ?s2)" for p
    by (rule onDataLoop_idle) simp_all
  have "onData (encodeFrame f) s =
      (case contentDecoded (options s) (body f) of
         Throws e \<Rightarrow> Inl (e, ?s2)
       | Rejects e \<Rightarrow> Inr (startDecoding (Inl e) ?s2)
       | Resolves v \<Rightarrow> Inr (startDecoding (Inr v) ?s2))"
    unfolding onData_more onDataLoop.simps [of ?init] h
    using b idle by (cases "contentDecoded (options s) (body f)") simp_all
  moreover have "options ?s2 = options s" "delivered ?s2 = delivered s" "decoding ?s2 = decoding s"
    "errorEmitter ?s2 = errorEmitter s" "uncaught ?s2 = uncaught s"
    using afterBody_fields(5) [of "[]" ?s1] by (simp_all add: ambient_def more_def)
  ultimately show ?thesis by blast
qed

text \<open>
  Claim C7, as amended: the content-type decoder is fixed when the reader is constructed,
  the \<open>contentTypeDecoder\<close> of the options when there is one and the application/json
  decoder of the runtime otherwise; the body of every well-framed message is decoded by
  it (after the content decoder, if any), whatever its \<open>Content-Type\<close> header says: the
  frame's \<open>contentType\<close> does not occur in what is delivered.
\<close>

theorem contentTypeDecoder_fixed_at_construction:
  fixes applicationJson :: "'m ContentTypeDecoder"
  assumes "wellFramed f"
  shows "contentTypeDecoder (fromOptions applicationJson arg) =
           (case arg of
              Options opts \<Rightarrow>
                (case opt_contentTypeDecoder opts of Some d \<Rightarrow> d | None \<Rightarrow> applicationJson)
            | _ \<Rightarrow> applicationJson)
       \<and> delivered (run [Data (encodeFrame f), Settle 0] (listen (newReader applicationJson arg now)))
           = (case (case contentDecoder (fromOptions applicationJson arg) of
                      None \<Rightarrow> Resolves (body f)
                    | Some decoder \<Rightarrow> cd_decode decoder (body f)) of
                Throws e \<Rightarrow> []
              | Rejects e \<Rightarrow> (case asError e of Inl thrown \<Rightarrow> [] | Inr err \<Rightarrow> [OnError err])
              | Resolves v \<Rightarrow>
                  (case ctd_decode (contentTypeDecoder (fromOptions applicationJson arg)) v
                          (charset (fromOptions applicationJson arg)) of
                     Throws e \<Rightarrow> []
                   | Rejects e \<Rightarrow> (case asError e of Inl thrown \<Rightarrow> [] | Inr err \<Rightarrow> [OnError err])
                   | Resolves msg \<Rightarrow> [Callback msg]))"
proof -
  let ?init = "listen (newReader applicationJson arg now)"
  let ?opts = "fromOptions applicationJson arg"
  have i: "nextMessageLength ?init = - 1" "buffer ?init = []" "decoding ?init = []"
    "delivered ?init = []" "\<not> isDisposed (errorEmitter ?init)"
    "options ?init = ?opts" "listeners ?init = Suc 0"
    by (simp_all add: listen_def newReader_def newEmitter_def)
  from onData_frame [OF assms i(1,2)] i
  obtain s1 where s1: "options s1 = ?opts" "delivered s1 = []" "decoding s1 = []"
      "\<not> isDisposed (errorEmitter s1)"
    and r: "onData (encodeFrame f) ?init =
               (case contentDecoded ?opts (body f) of
                  Throws e \<Rightarrow> Inl (e, s1)
                | Rejects e \<Rightarrow> Inr (startDecoding (Inl e) s1)
                | Resolves v \<Rightarrow> Inr (startDecoding (Inr v) s1))"
    by auto
  have run: "run [Data (encodeFrame f), Settle 0] ?init
      = settle 0 (escaped (onData (encodeFrame f) ?init))"
    using step_Data_one [OF i(7), of "encodeFrame f"] by (simp add: run_def)
  have c: "contentDecoded ?opts (body f)
      = (case contentDecoder ?opts of None \<Rightarrow> Resolves (body f)
         | Some decoder \<Rightarrow> cd_decode decoder (body f))"
    by (simp add: contentDecoded_def)
  have "delivered (run [Data (encodeFrame f), Settle 0] ?init)
      = (case contentDecoded ?opts (body f) of
           Throws e \<Rightarrow> []
         | Rejects e \<Rightarrow> (case asError e of Inl thrown \<Rightarrow> [] | Inr err \<Rightarrow> [OnError err])
         | Resolves v \<Rightarrow>
             (case ctd_decode (contentTypeDecoder ?opts) v (charset ?opts) of
                Throws e \<Rightarrow> []
              | Rejects e \<Rightarrow> (case asError e of Inl thrown \<Rightarrow> [] | Inr err \<Rightarrow> [OnError err])
              | Resolves msg \<Rightarrow> [Callback msg]))"
  proof (cases "contentDecoded ?opts (body f)")
    case (Throws e)
    with r s1 show ?thesis unfolding run by (simp add: escaped_def settle_def)
  next
    case (Rejects e)
    with r s1 show ?thesis
      unfolding run
      by (simp add: escaped_def settle_def startDecoding_def deliverOutcome_settled settled_def
          errorEvents_def split: sum.splits)
  next
    case (Resolves v)
    with r s1 show ?thesis
      unfolding run
      by (simp add: escaped_def settle_def startDecoding_def deliverOutcome_settled settled_def
          errorEvents_def split: sum.splits outcome.splits)
  qed
  then show ?thesis
    unfolding c using contentTypeDecoder_fromOptions [of applicationJson arg] by simp
qed

theorem contentTypeDecoder_fixed_at_construction_witness:
  "wellFramed \<lparr>contentType = Some ''text/reversed'', body = ''hi''\<rparr>
   \<and> contentTypeDecoder (fromOptions sampleDecoder (Options sampleOptions)) = sampleDecoder
   \<and> delivered (run [Data (encodeFrame \<lparr>contentType = Some ''text/reversed'', body = ''hi''\<rparr>), Settle 0]
        (listen (newReader sampleDecoder (Options sampleOptions) 0)))
       = [Callback ''hi'']"
proof -
  have wf: "wellFramed \<lparr>contentType = Some ''text/reversed'', body = ''hi''\<rparr>"
    by (simp add: wellFramed_def CR_def LF_def)
  have o: "contentDecoder (fromOptions sampleDecoder (Options sampleOptions)) = None"
    "charset (fromOptions sampleDecoder (Options sampleOptions)) = ''utf-8''"
    by (simp_all add: fromOptions_def sampleOptions_def Let_def)
  from contentTypeDecoder_fixed_at_construction [OF wf, of sampleDecoder "Options sampleOptions" 0] wf o
  show ?thesis by (simp add: sampleOptions_def sampleDecoder_def)
qed

text \<open>
  Claim C7 as stated fails: the header is not consulted. A message whose \<open>Content-Type\<close>
  names a registered decoder is decoded by the reader's default decoder (the callback
  receives \<open>hi\<close>), where the selection described by the spec takes the registered decoder
  (which gives \<open>ih\<close>).
\<close>

theorem contentType_header_ignored_counterexample:
  "delivered (run [Data (encodeFrame \<lparr>contentType = Some ''text/reversed'', body = ''hi''\<rparr>), Settle 0]
        (listen (newReader sampleDecoder (Options sampleOptions) 0)))
     = [Callback ''hi'']
   \<and> (case tryReadHeaders (encodeFrame \<lparr>contentType = Some ''text/reversed'', body = ''hi''\<rparr>) of
         None \<Rightarrow> False
       | Some (headers, rest) \<Rightarrow>
           headers ''Content-Type'' = Some ''text/reversed''
           \<and> ctd_decode (specContentTypeDecoder sampleDecoder
                 (fromOptions sampleDecoder (Options sampleOptions)) headers) rest ''utf-8''
               = Resolves ''ih'')"
  by code_simp


section \<open>Further properties\<close>

subsection \<open>Where computeDiff is right\<close>

declare startLoop.simps [simp del]
declare endLoop.simps [simp del]

lemma startLoop_prefix:
  "i \<le> length orig \<Longrightarrow> i \<le> length modi \<Longrightarrow> take i orig = take i modi \<Longrightarrow>
   i \<le> startLoop orig modi i \<and> startLoop orig modi i \<le> length orig
   \<and> startLoop orig modi i \<le> length modi
   \<and> take (startLoop orig modi i) orig = take (startLoop orig modi i) modi"
proof (induction orig modi i rule: startLoop.induct)
  case (1 orig modi i)
  show ?case
  proof (cases "i < length modi \<and> i < length orig \<and> orig ! i = modi ! i")
    case True
    then have "take (i + 1) orig = take (i + 1) modi"
      using "1.prems"(3) by (simp add: take_Suc_conv_app_nth)
    from "1.IH" [OF True _ _ this] True show ?thesis
      by (subst (1 2 3 4 5) startLoop.simps) simp
  next
    case False
    then show ?thesis using "1.prems" by (subst (1 2 3 4 5) startLoop.simps) auto
  qed
qed

lemma endLoop_suffix:
  "j \<le> length orig \<Longrightarrow> j \<le> length modi \<Longrightarrow>
   drop (length orig - j) orig = drop (length modi - j) modi \<Longrightarrow>
   j \<le> endLoop orig modi j \<and> endLoop orig modi j \<le> length orig
   \<and> endLoop orig modi j \<le> length modi
   \<and> drop (length orig - endLoop orig modi j) orig = drop (length modi - endLoop orig modi j) modi"
proof (induction orig modi j rule: endLoop.induct)
  case (1 orig modi j)
  show ?case
  proof (cases "j < length modi \<and> j < length orig
      \<and> orig ! (length orig - 1 - j) = modi ! (length modi - 1 - j)")
    case True
    have o: "drop (length orig - (j + 1)) orig
        = orig ! (length orig - 1 - j) # drop (length orig - j) orig"
      using True by (metis Cons_nth_drop_Suc Suc_diff_Suc Suc_eq_plus1 diff_diff_left diff_less
          zero_less_Suc length_greater_0_conv less_nat_zero_code list.size(3) add.commute)
    have m: "drop (length modi - (j + 1)) modi
        = modi ! (length modi - 1 - j) # drop (length modi - j) modi"
      using True by (metis Cons_nth_drop_Suc Suc_diff_Suc Suc_eq_plus1 diff_diff_left diff_less
          zero_less_Suc length_greater_0_conv less_nat_zero_code list.size(3) add.commute)
    have "drop (length orig - (j + 1)) orig = drop (length modi - (j + 1)) modi"
      using o m True "1.prems"(3) by simp
    from "1.IH" [OF True _ _ this] True show ?thesis
      by (subst (1 2 3 4 5) endLoop.simps) simp
  next
    case False
    then show ?thesis using "1.prems" by (subst (1 2 3 4 5) endLoop.simps) auto
  qed
qed

lemma startLoop_0:
  "startLoop orig modi 0 \<le> length orig \<and> startLoop orig modi 0 \<le> length modi
   \<and> take (startLoop orig modi 0) orig = take (startLoop orig modi 0) modi"
  using startLoop_prefix [of 0 orig modi] by simp

lemma endLoop_0:
  "endLoop orig modi 0 \<le> length orig \<and> endLoop orig modi 0 \<le> length modi
   \<and> drop (length orig - endLoop orig modi 0) orig = drop (length modi - endLoop orig modi 0) modi"
  using endLoop_suffix [of 0 orig modi] by simp

lemma startLoop_same: "i \<le> length xs \<Longrightarrow> startLoop xs xs i = length xs"
proof (induction "length xs - i" arbitrary: i)
  case 0
  then show ?case by (subst startLoop.simps) simp
next
  case (Suc n)
  then have "startLoop xs xs (i + 1) = length xs" by simp
  with Suc.hyps(2) Suc.prems show ?case by (subst startLoop.simps) simp
qed

lemma common_suffix_shorter:
  assumes "drop (length orig - e) orig = drop (length modi - e) modi"
    and "e \<le> length orig" and "e \<le> length modi" and "k \<le> e"
  shows "drop (length orig - k) orig = drop (length modi - k) modi"
proof -
  have "drop (length orig - k) orig = drop (e - k) (drop (length orig - e) orig)"
    using assms(2,4) by simp
  also have "\<dots> = drop (e - k) (drop (length modi - e) modi)" using assms(1) by simp
  also have "\<dots> = drop (length modi - k) modi" using assms(3,4) by simp
  finally show ?thesis .
qed

text \<open>
  \<open>computeDiff\<close> returns one edit at most, and none for equal sequences.
\<close>

theorem computeDiff_at_most_one_edit:
  "length (computeDiff originalSequence modifiedSequence) \<le> 1
   \<and> computeDiff originalSequence originalSequence = []"
  by (simp add: computeDiff_def Let_def startLoop_same)

text \<open>
  When one sequence is a prefix of the other, or the common prefix and the common suffix
  less one element do not overlap in the shorter sequence, applying the edit to the
  original sequence yields the modified sequence.
\<close>

theorem computeDiff_applies_without_overlap:
  assumes "startLoop orig modi 0 = min (length orig) (length modi)
         \<or> startLoop orig modi 0 + endLoop orig modi 0 \<le> min (length orig) (length modi) + 1"
  shows "applyEdits orig (computeDiff orig modi) = modi"
proof -
  let ?p = "startLoop orig modi 0"
  let ?e = "endLoop orig modi 0"
  from startLoop_0 [of orig modi]
  have p: "?p \<le> length orig" "?p \<le> length modi" "take ?p orig = take ?p modi" by simp_all
  from endLoop_0 [of orig modi]
  have e: "?e \<le> length orig" "?e \<le> length modi"
    "drop (length orig - ?e) orig = drop (length modi - ?e) modi" by simp_all
  show ?thesis
  proof (cases "?p < length modi \<and> ?p < length orig")
    case True
    then have ov: "?p + ?e \<le> min (length orig) (length modi) + 1" using assms by auto
    show ?thesis
    proof (cases ?e)
      case 0
      have "slice modi (int ?p) (int (length modi) + 1) = drop ?p modi"
        using p by (simp add: slice_def slice_index_def Let_def)
      then have "applyEdits orig (computeDiff orig modi) = take ?p orig @ drop ?p modi"
        using True 0 p by (simp add: computeDiff_def Let_def applyEdits_def applyEdit_def nat_add_distrib)
      then show ?thesis using p(3) by simp
    next
      case (Suc k)
      have k: "?p + k \<le> length orig" "?p + k \<le> length modi" "k \<le> ?e"
        using ov Suc by simp_all
      have sl: "slice modi (int ?p) (int (length modi) - int k)
          = take (length modi - k - ?p) (drop ?p modi)"
        using p k by (simp add: slice_def slice_index_def nat_diff_distrib Let_def)
      have dc: "nat (int (length orig) - int k - int ?p) = length orig - k - ?p"
        by (simp add: nat_diff_distrib)
      have "applyEdits orig (computeDiff orig modi)
          = take ?p orig @ take (length modi - k - ?p) (drop ?p modi)
              @ drop (?p + (length orig - k - ?p)) orig"
        using True Suc sl dc
        by (simp add: computeDiff_def Let_def applyEdits_def applyEdit_def)
      also have "drop (?p + (length orig - k - ?p)) orig = drop (length orig - k) orig"
        using k by simp
      also have "\<dots> = drop (length modi - k) modi"
        using common_suffix_shorter [OF e(3) e(1) e(2) k(3)] .
      also have "take ?p orig @ take (length modi - k - ?p) (drop ?p modi) @ drop (length modi - k) modi
          = (take ?p modi @ take (length modi - k - ?p) (drop ?p modi)) @ drop (length modi - k) modi"
        using p(3) by simp
      also have "take ?p modi @ take (length modi - k - ?p) (drop ?p modi)
          = take (?p + (length modi - k - ?p)) modi"
        by (simp add: take_add)
      also have "?p + (length modi - k - ?p) = length modi - k" using k by simp
      finally show ?thesis by simp
    qed
  next
    case False
    show ?thesis
    proof (cases "?p < length modi")
      case True
      with False p have po: "?p = length orig" by simp
      have "slice modi (int ?p) (int (length modi)) = drop ?p modi"
        using p by (simp add: slice_def slice_index_def Let_def)
      then have "applyEdits orig (computeDiff orig modi) = take ?p orig @ drop ?p modi @ drop ?p orig"
        using True False by (simp add: computeDiff_def Let_def applyEdits_def applyEdit_def)
      moreover have "take ?p orig @ drop ?p modi @ drop ?p orig = take ?p modi @ drop ?p modi"
        using p(3) po by simp
      ultimately show ?thesis by (simp only: append_take_drop_id)
    next
      case pm: False
      with p have pm': "?p = length modi" by simp
      show ?thesis
      proof (cases "?p < length orig")
        case True
        then have "applyEdits orig (computeDiff orig modi) = take ?p orig"
          using pm by (simp add: computeDiff_def Let_def applyEdits_def applyEdit_def nat_diff_distrib)
        then show ?thesis using p(3) pm' by simp
      next
        case False
        with p have "?p = length orig" by simp
        with p(3) pm' have "orig = modi" by simp
        then show ?thesis using False pm
          by (simp add: computeDiff_def Let_def applyEdits_def)
      qed
    qed
  qed
qed

theorem computeDiff_applies_without_overlap_witness:
  "startLoop [1,1,2,1,1] [1,1,3,4,1,1] 0 + endLoop [1,1,2,1,1] [1,1,3,4,1,1] 0
     \<le> min (length [1,1,2,1,1::int]) (length [1,1,3,4,1,1::int]) + 1
   \<and> computeDiff [1,1,2,1,1] [1,1,3,4,1,1]
       = [\<lparr>start = 2, deleteCount = 2, edit_data = Some [3, 4, 1]\<rparr>]
   \<and> applyEdits [1,1,2,1,1] (computeDiff [1,1,2,1,1] [1,1,3,4,1,1]) = [1,1,3,4,1,1]"
proof -
  have h: "startLoop [1,1,2,1,1] [1,1,3,4,1,1] 0 + endLoop [1,1,2,1,1] [1,1,3,4,1,1] 0
     \<le> min (length [1,1,2,1,1::int]) (length [1,1,3,4,1,1::int]) + 1"
    by code_simp
  have c: "computeDiff [1,1,2,1,1] [1,1,3,4,1,1]
       = [\<lparr>start = 2, deleteCount = 2, edit_data = Some [3, 4, 1]\<rparr>]"
    by code_simp
  from computeDiff_applies_without_overlap [of "[1,1,2,1,1]" "[1,1,3,4,1,1]"] h c
  show ?thesis by simp
qed


subsection \<open>Chunking of arbitrary bytes\<close>

text \<open>
  For any bytes, well-framed or not, delivered to a reader with one set of handlers
  registered: when \<open>onData\<close> on the whole of them does not throw, delivering them in any
  chunks does not throw either and leaves the same buffer, the same \<open>nextMessageLength\<close>
  and the same decodings started.
\<close>

theorem chunking_independent:
  assumes "chunks \<noteq> []" and "onData (concat chunks) s = Inr t" and "listeners s = 1"
  shows "buffer (run (map Data chunks) s) = buffer t
       \<and> nextMessageLength (run (map Data chunks) s) = nextMessageLength t
       \<and> decoding (run (map Data chunks) s) = decoding t
       \<and> uncaught (run (map Data chunks) s) = uncaught s"
proof -
  from feed_concat [OF assms(1,2)] obtain t' where t': "feed chunks s = Inr t'" "framing t' = framing t"
    by blast
  have one: "listeners s = Suc 0" using assms(3) by simp
  from run_feed [OF t'(1) one] ambient_feed [OF t'(1)] t'(2) show ?thesis
    by (simp add: framing_def ambient_def)
qed

theorem chunking_independent_witness:
  "[''Content-Length: 3'' @ CRLF @ [CR], [LF] @ ''abcCont'', ''ent-Le''] \<noteq> []
   \<and> \<not> isl (onData (concat [''Content-Length: 3'' @ CRLF @ [CR], [LF] @ ''abcCont'', ''ent-Le'']) sampleReader)
   \<and> listeners sampleReader = 1
   \<and> buffer (run (map Data [''Content-Length: 3'' @ CRLF @ [CR], [LF] @ ''abcCont'', ''ent-Le''])
         sampleReader) = ''Content-Le''
   \<and> decoding (run (map Data [''Content-Length: 3'' @ CRLF @ [CR], [LF] @ ''abcCont'', ''ent-Le''])
         sampleReader) = [Inr ''abc'']"
proof -
  let ?chunks = "[''Content-Length: 3'' @ CRLF @ [CR], [LF] @ ''abcCont'', ''ent-Le'']"
  have n: "\<not> isl (onData (concat ?chunks) sampleReader)" by code_simp
  then obtain t where t: "onData (concat ?chunks) sampleReader = Inr t"
    by (cases "onData (concat ?chunks) sampleReader") auto
  have "buffer (resultState (onData (concat ?chunks) sampleReader)) = ''Content-Le''"
    "decoding (resultState (onData (concat ?chunks) sampleReader)) = [Inr ''abc'']"
    by code_simp+
  then have bt: "buffer t = ''Content-Le''" "decoding t = [Inr ''abc'']" using t by simp_all
  have ne: "?chunks \<noteq> []" by simp
  from chunking_independent [OF ne t sampleReader_fields(10)] bt n sampleReader_fields(10)
  show ?thesis by simp
qed

subsection \<open>The timers of a reader on which listen is called once\<close>

lemma ownTimer_iff:
  "ownTimer s \<longleftrightarrow>
     timers s = [] \<or> (\<exists>t. timers s = [t] \<and> partialMessageTimer s = Some (tid t))"
  by (auto simp: ownTimer_def split: list.splits)

lemma ownTimer_handled: "ownTimer s \<Longrightarrow> handled s"
  by (auto simp: ownTimer_iff handled_def)

lemma ownTimer_clear:
  assumes "ownTimer s"
  shows "ownTimer (clearPartialMessageTimer s)"
  using handled_clear [OF ownTimer_handled [OF assms]] by (simp add: ownTimer_iff)

lemma ownTimer_setPartialMessageTimer:
  assumes "ownTimer s"
  shows "ownTimer (setPartialMessageTimer s)"
  using handled_clear [OF ownTimer_handled [OF assms]]
  by (simp add: ownTimer_iff setPartialMessageTimer_def Let_def setTimeout_def)

lemma ownTimer_readHeaders: "ownTimer s \<Longrightarrow> ownTimer (stateOf (readHeaders s))"
  by (auto simp: readHeaders_def ownTimer_iff Let_def split: if_splits option.splits)

lemma ownTimer_afterBody:
  assumes "ownTimer s"
  shows "ownTimer (afterBody r s)"
proof -
  have "ownTimer (s\<lparr>buffer := r\<rparr>)" using assms by (simp add: ownTimer_iff)
  from ownTimer_clear [OF this] show ?thesis by (simp add: ownTimer_iff afterBody_def)
qed

lemma ownTimer_startDecoding: "ownTimer s \<Longrightarrow> ownTimer (startDecoding p s)"
  by (simp add: ownTimer_iff startDecoding_def)

lemma ownTimer_readBody: "ownTimer s \<Longrightarrow> ownTimer (stateOf (readBody s))"
  by (cases s rule: readBody_cases)
    (simp_all add: ownTimer_setPartialMessageTimer ownTimer_afterBody ownTimer_startDecoding)

lemma ownTimer_onData:
  assumes "ownTimer s"
  shows "ownTimer (resultState (onData c s))"
proof -
  have "ownTimer (s\<lparr>buffer := buffer s @ c\<rparr>)" using assms by (simp add: ownTimer_iff)
  then show ?thesis
    unfolding onData_def
    by (rule onDataLoop_invariant) (simp_all add: ownTimer_readHeaders ownTimer_readBody)
qed

lemma ownTimer_fireTimer:
  assumes "ownTimer s" and "t \<in> set (timers s)"
  shows "ownTimer (fireTimer t s)"
proof -
  from assms have t: "timers s = [t]" by (auto simp: ownTimer_iff)
  let ?s1 = "s\<lparr>timers := remove1 t (timers s), clock := max (clock s) (due t),
                partialMessageTimer := None\<rparr>"
  have o1: "ownTimer ?s1" using t by (simp add: ownTimer_iff)
  have "ownTimer (firePartialMessage info ?s1)" for info
    using o1 by (simp add: ownTimer_iff firePartialMessage_def)
  from ownTimer_setPartialMessageTimer [OF this] o1 show ?thesis
    by (simp add: fireTimer_def timerCallback_def Let_def)
qed

lemma ownTimer_runTimers: "ownTimer s \<Longrightarrow> ownTimer (runTimers target s)"
proof (induction target s rule: runTimers.induct)
  case (1 target s)
  show ?case
  proof (cases "nextDue target (timers s)")
    case None
    then have "runTimers target s = s\<lparr>clock := max (clock s) target\<rparr>"
      by (subst runTimers.simps) simp
    with "1.prems" show ?thesis by (simp add: ownTimer_iff)
  next
    case (Some t)
    from nextDue_Some [OF Some] have "t \<in> set (timers s)" by simp
    from "1.IH" [OF Some ownTimer_fireTimer [OF "1.prems" this]] Some show ?thesis
      by (subst runTimers.simps) simp
  qed
qed

lemma ownTimer_escaped: "ownTimer (escaped r) = ownTimer (resultState r)"
  by (simp add: ownTimer_iff)

lemma ownTimer_step:
  assumes "ownTimer s" and "noListen a"
  shows "ownTimer (step a s)"
proof (cases a)
  case (Data chunk)
  have "ownTimer (resultState (emit (listeners s) (onData chunk) s))"
    using assms(1) by (rule emit_invariant) (rule ownTimer_onData)
  with Data show ?thesis by (simp add: ownTimer_escaped)
next
  case (StreamError e)
  have "ownTimer (resultState (emit (listeners s) (fireError e) s))"
    using assms(1) by (rule emit_invariant) (simp add: ownTimer_iff)
  with StreamError show ?thesis by (simp add: ownTimer_escaped)
next
  case StreamClose
  have "ownTimer (resultState (emit (listeners s) (\<lambda>s'. Inr (fireClose s')) s))"
    using assms(1) by (rule emit_invariant) (simp add: ownTimer_iff)
  with StreamClose show ?thesis by (simp add: ownTimer_escaped)
next
  case (Elapse d)
  with ownTimer_runTimers [OF assms(1)] show ?thesis by (simp add: elapse_def)
next
  case (SetPartialMessageTimeout timeout)
  with assms(1) show ?thesis by (simp add: ownTimer_iff setPartialMessageTimeout_def)
next
  case Listen
  with assms(2) show ?thesis by (simp add: noListen_def)
next
  case Dispose
  with assms(1) show ?thesis by (simp add: ownTimer_iff dispose_def)
next
  case (Settle i)
  with assms(1) show ?thesis by (simp add: ownTimer_iff)
qed

lemma ownTimer_run: "ownTimer s \<Longrightarrow> list_all noListen acts \<Longrightarrow> ownTimer (run acts s)"
proof (induction acts arbitrary: s)
  case Nil
  then show ?case by (simp add: run_def)
next
  case (Cons a acts)
  from Cons.prems(2) have a: "noListen a" and acts: "list_all noListen acts" by simp_all
  from Cons.IH [OF ownTimer_step [OF Cons.prems(1) a] acts] show ?case by (simp add: run_Cons)
qed

text \<open>
  After the constructor and one call of \<open>listen\<close>, whatever follows but another \<open>listen\<close>:
  at most one timer is pending, and it is the one whose handle the reader holds.
\<close>

theorem own_timer_after_one_listen:
  fixes applicationJson :: "'m ContentTypeDecoder"
  assumes "list_all noListen acts"
  shows "length (timers (run acts (listen (newReader applicationJson arg now)))) \<le> 1
       \<and> list_all (\<lambda>t. partialMessageTimer (run acts (listen (newReader applicationJson arg now)))
                          = Some (tid t))
           (timers (run acts (listen (newReader applicationJson arg now))))"
proof -
  let ?init = "listen (newReader applicationJson arg now)"
  have "ownTimer ?init" by (simp add: ownTimer_iff listen_def newReader_def)
  from ownTimer_run [OF this assms] show ?thesis
    by (auto simp: ownTimer_iff)
qed

theorem own_timer_after_one_listen_witness:
  "list_all noListen [SetPartialMessageTimeout 10, Data (''Content-Length: 2'' @ CRLF @ CRLF),
       Elapse 25, Dispose, Data ''h'']
   \<and> length (timers (run [SetPartialMessageTimeout 10, Data (''Content-Length: 2'' @ CRLF @ CRLF),
       Elapse 25, Dispose, Data ''h''] sampleReader)) = 1
   \<and> list_all (\<lambda>t. partialMessageTimer (run [SetPartialMessageTimeout 10,
                        Data (''Content-Length: 2'' @ CRLF @ CRLF), Elapse 25, Dispose, Data ''h'']
                        sampleReader) = Some (tid t))
       (timers (run [SetPartialMessageTimeout 10, Data (''Content-Length: 2'' @ CRLF @ CRLF),
          Elapse 25, Dispose, Data ''h''] sampleReader))"
proof -
  let ?acts = "[SetPartialMessageTimeout 10, Data (''Content-Length: 2'' @ CRLF @ CRLF),
       Elapse 25, Dispose, Data ''h'']"
  have a: "list_all noListen ?acts" by (simp add: noListen_def)
  have l: "length (timers (run ?acts sampleReader)) = 1" by code_simp
  from own_timer_after_one_listen [OF a, of sampleDecoder Undefined 0] a l
  show ?thesis by (simp add: sampleReader_def)
qed


end
